theory Spec2Isabelle
  imports Main "HOL-Library.Char_ord" "HOL-Library.List_Lexorder" "HOL-Library.Multiset"
begin

section \<open>Go strings and the library functions the program calls\<close>

text \<open>
  A Go \<open>string\<close> and a \<open>[]byte\<close> are byte sequences: both are modelled as
  \<^typ>\<open>string\<close> (a list of 8-bit characters), and \<open>len\<close> is \<^const>\<open>length\<close>.
  An index that Go reports as \<open>-1\<close> is \<^const>\<open>None\<close> here.
\<close>

definition HasPrefix :: "string \<Rightarrow> string \<Rightarrow> bool" where
  "HasPrefix s p = (take (length p) s = p)"

text \<open>\<open>strings.Index\<close>: the byte offset of the first occurrence of \<open>sep\<close> in \<open>s\<close>.\<close>

fun Index :: "string \<Rightarrow> string \<Rightarrow> nat option" where
  "Index [] sep = (if sep = [] then Some 0 else None)"
| "Index (c # cs) sep =
     (if HasPrefix (c # cs) sep then Some 0 else map_option Suc (Index cs sep))"

definition Contains :: "string \<Rightarrow> string \<Rightarrow> bool" where
  "Contains s sub = (Index s sub \<noteq> None)"

text \<open>
  \<open>strings.Count\<close> for a non-empty separator: the number of non-overlapping occurrences,
  found left to right. The program only counts \<open>://\<close>; the empty separator (where Go
  counts runes) is not reached and gives 0 here.
\<close>

function Count :: "string \<Rightarrow> string \<Rightarrow> nat" where
  "Count s sep =
     (if s = [] \<or> sep = [] then 0
      else if HasPrefix s sep then Suc (Count (drop (length sep) s) sep)
      else Count (tl s) sep)"
  by pat_completeness auto
termination
  by (relation "measure (\<lambda>(s, sep). length s)") auto

declare Count.simps [simp del]

text \<open>
  \<open>strings.TrimSpace\<close> removes leading and trailing white space as Unicode defines it.
  On the UTF-8 bytes of a Go string that is: the six ASCII space bytes, and the encodings of
  U+0085, U+00A0, U+1680, U+2000 to U+200A, U+2028, U+2029, U+202F, U+205F and U+3000. A byte
  that does not start (or, from the right, end) one of these encodings stops the trimming,
  which is what Go's rune decoding does with every other rune and with invalid UTF-8.
\<close>

definition spaceRunes :: "string list" where
  "spaceRunes =
     [[CHR 0x09], [CHR 0x0A], [CHR 0x0B], [CHR 0x0C], [CHR 0x0D], [CHR 0x20],
      [CHR 0xC2, CHR 0x85], [CHR 0xC2, CHR 0xA0],
      [CHR 0xE1, CHR 0x9A, CHR 0x80],
      [CHR 0xE2, CHR 0x80, CHR 0x80], [CHR 0xE2, CHR 0x80, CHR 0x81],
      [CHR 0xE2, CHR 0x80, CHR 0x82], [CHR 0xE2, CHR 0x80, CHR 0x83],
      [CHR 0xE2, CHR 0x80, CHR 0x84], [CHR 0xE2, CHR 0x80, CHR 0x85],
      [CHR 0xE2, CHR 0x80, CHR 0x86], [CHR 0xE2, CHR 0x80, CHR 0x87],
      [CHR 0xE2, CHR 0x80, CHR 0x88], [CHR 0xE2, CHR 0x80, CHR 0x89],
      [CHR 0xE2, CHR 0x80, CHR 0x8A],
      [CHR 0xE2, CHR 0x80, CHR 0xA8], [CHR 0xE2, CHR 0x80, CHR 0xA9],
      [CHR 0xE2, CHR 0x80, CHR 0xAF], [CHR 0xE2, CHR 0x81, CHR 0x9F],
      [CHR 0xE3, CHR 0x80, CHR 0x80]]"

text \<open>The first pattern of \<open>ps\<close> that is a non-empty prefix of \<open>s\<close>, if any.\<close>

definition leading :: "string list \<Rightarrow> string \<Rightarrow> string option" where
  "leading ps s = find (\<lambda>p. p \<noteq> [] \<and> HasPrefix s p) ps"

lemma HasPrefix_length: "HasPrefix s p \<Longrightarrow> length p \<le> length s"
proof -
  assume "HasPrefix s p"
  then have "length (take (length p) s) = length p"
    unfolding HasPrefix_def by simp
  then show ?thesis by simp
qed

lemma leading_Some: "leading ps s = Some p \<Longrightarrow> p \<in> set ps \<and> p \<noteq> [] \<and> HasPrefix s p"
  unfolding leading_def by (auto simp: find_Some_iff)

lemma leading_shorter: "leading ps s = Some p \<Longrightarrow> length s - length p < length s"
proof -
  assume "leading ps s = Some p"
  then have "p \<noteq> []" "length p \<le> length s"
    using leading_Some HasPrefix_length by blast+
  then show ?thesis by (cases p) auto
qed

function stripFront :: "string list \<Rightarrow> string \<Rightarrow> string" where
  "stripFront ps s =
     (case leading ps s of None \<Rightarrow> s | Some p \<Rightarrow> stripFront ps (drop (length p) s))"
  by pat_completeness auto
termination
  by (relation "measure (\<lambda>(ps, s). length s)") (auto simp: leading_shorter)

declare stripFront.simps [simp del]

definition TrimSpace :: "string \<Rightarrow> string" where
  "TrimSpace s = rev (stripFront (map rev spaceRunes) (rev (stripFront spaceRunes s)))"

section \<open>UTF-8 and lower case\<close>

text \<open>
  A rune is a number. \<open>utf8.DecodeRuneInString\<close> gives the first rune of a text and its
  width in bytes; a byte that does not start a well-formed encoding is the rune
  \<open>RuneError\<close> (U+FFFD) with width 1. The table \<open>first\<close> of the Go source is written as
  ranges: \<open>runeSize\<close> is the length a leading byte announces (0 for a byte that cannot
  lead), \<open>acceptLo\<close> and \<open>acceptHi\<close> bound the second byte. The masks of the Go code are
  written as \<open>mod\<close>, the shifts as products.
\<close>

definition RuneError :: nat where
  "RuneError = 0xFFFD"

definition runeSize :: "nat \<Rightarrow> nat" where
  "runeSize s0 =
     (if s0 < 0x80 then 1 else if s0 < 0xC2 then 0 else if s0 < 0xE0 then 2
      else if s0 < 0xF0 then 3 else if s0 < 0xF5 then 4 else 0)"

definition acceptLo :: "nat \<Rightarrow> nat" where
  "acceptLo s0 = (if s0 = 0xE0 then 0xA0 else if s0 = 0xF0 then 0x90 else 0x80)"

definition acceptHi :: "nat \<Rightarrow> nat" where
  "acceptHi s0 = (if s0 = 0xED then 0x9F else if s0 = 0xF4 then 0x8F else 0xBF)"

definition DecodeRuneInString :: "string \<Rightarrow> nat \<times> nat" where
  "DecodeRuneInString s =
     (case map of_char s of
        [] \<Rightarrow> (RuneError, 0)
      | s0 # t \<Rightarrow>
          if s0 < 0x80 then (s0, 1)
          else if runeSize s0 = 0 then (RuneError, 1)
          else if length s < runeSize s0 then (RuneError, 1)
          else
            (let s1 = t ! 0
             in if s1 < acceptLo s0 \<or> acceptHi s0 < s1 then (RuneError, 1)
                else if runeSize s0 \<le> 2 then (s0 mod 32 * 64 + s1 mod 64, 2)
                else
                  (let s2 = t ! 1
                   in if s2 < 0x80 \<or> 0xBF < s2 then (RuneError, 1)
                      else if runeSize s0 \<le> 3
                      then (s0 mod 16 * 4096 + s1 mod 64 * 64 + s2 mod 64, 3)
                      else
                        (let s3 = t ! 2
                         in if s3 < 0x80 \<or> 0xBF < s3 then (RuneError, 1)
                            else (s0 mod 8 * 262144 + s1 mod 64 * 4096 + s2 mod 64 * 64
                                  + s3 mod 64, 4)))))"

text \<open>
  \<open>utf8.AppendRune\<close>, which \<open>WriteRune\<close> and \<open>WriteByte\<close> come to: the encoding of a
  rune, and the encoding of \<open>RuneError\<close> for a surrogate or a number beyond U+10FFFF.
\<close>

definition AppendRune :: "nat \<Rightarrow> string" where
  "AppendRune r =
     (if r \<le> 0x7F then [char_of r]
      else if r \<le> 0x7FF then [char_of (0xC0 + r div 64), char_of (0x80 + r mod 64)]
      else if 0x10FFFF < r \<or> (0xD800 \<le> r \<and> r \<le> 0xDFFF)
      then [CHR 0xEF, CHR 0xBF, CHR 0xBD]
      else if r \<le> 0xFFFF
      then [char_of (0xE0 + r div 4096), char_of (0x80 + r div 64 mod 64),
            char_of (0x80 + r mod 64)]
      else [char_of (0xF0 + r div 262144), char_of (0x80 + r div 4096 mod 64),
            char_of (0x80 + r div 64 mod 64), char_of (0x80 + r mod 64)])"

lemma DecodeRune_width:
  assumes "s \<noteq> []"
  shows "1 \<le> snd (DecodeRuneInString s) \<and> snd (DecodeRuneInString s) \<le> length s"
proof (cases s)
  case Nil
  with assms show ?thesis by simp
next
  case (Cons c0 t)
  have "0 < length t \<or> t = []" by auto
  with Cons show ?thesis
    unfolding DecodeRuneInString_def Let_def
    by (auto simp: runeSize_def Suc_le_eq split: if_splits)
qed

lemma drop_width_shorter:
  "s \<noteq> [] \<Longrightarrow> (c, width) = DecodeRuneInString s \<Longrightarrow> length s - width < length s"
  using DecodeRune_width [of s] by (cases "DecodeRuneInString s") auto

text \<open>
  \<open>strings.Map\<close>. Up to the first rune that the mapping changes, and up to the first
  invalid byte, the bytes of the text are kept (\<open>changed\<close> is false); from there on every
  rune is mapped and encoded again, an invalid byte as \<open>RuneError\<close>. The mappings used
  here give no negative rune, which \<open>Map\<close> would drop.
\<close>

function mapRunes :: "(nat \<Rightarrow> nat) \<Rightarrow> bool \<Rightarrow> string \<Rightarrow> string" where
  "mapRunes mapping changed s =
     (if s = [] then []
      else
        (let (c, width) = DecodeRuneInString s;
             r = mapping c
         in if \<not> changed \<and> r = c \<and> \<not> (c = RuneError \<and> width = 1)
            then take width s @ mapRunes mapping False (drop width s)
            else AppendRune r @ mapRunes mapping True (drop width s)))"
  by pat_completeness auto
termination
  by (relation "measure (\<lambda>(mapping, changed, s). length s)") (auto simp: drop_width_shorter)

declare mapRunes.simps [simp del]

text \<open>
  \<open>unicode.ToLower\<close>: the ASCII letters are moved by the code itself, every other rune
  is looked up in \<open>unicode.CaseRanges\<close>. That table is not part of the program: it is the
  parameter \<open>table\<close> of everything that lower-cases, and what is proved holds for every
  table, unless a theorem says what it asks of it.
\<close>

definition unicodeToLower :: "(nat \<Rightarrow> nat) \<Rightarrow> nat \<Rightarrow> nat" where
  "unicodeToLower table r =
     (if r \<le> 0x7F then (if 0x41 \<le> r \<and> r \<le> 0x5A then r + 0x20 else r) else table r)"

text \<open>
  \<open>strings.ToLower\<close>: a text of ASCII bytes only is mapped byte by byte, any other text
  goes through \<open>Map(unicode.ToLower, s)\<close>. The result can be shorter or longer than the
  text: U+212A becomes \<open>k\<close>, an invalid byte becomes the three bytes of U+FFFD.
\<close>

definition lowerByte :: "char \<Rightarrow> char" where
  "lowerByte c =
     (if CHR ''A'' \<le> c \<and> c \<le> CHR ''Z'' then char_of (of_char c + (32::nat)) else c)"

definition ToLower :: "(nat \<Rightarrow> nat) \<Rightarrow> string \<Rightarrow> string" where
  "ToLower table s =
     (if list_all (\<lambda>c. c < CHR 0x80) s then map lowerByte s
      else mapRunes (unicodeToLower table) False s)"

section \<open>The multi-URI splitter\<close>

definition isSchemeChar :: "char \<Rightarrow> bool" where
  "isSchemeChar c =
     ((CHR ''a'' \<le> c \<and> c \<le> CHR ''z'') \<or> (CHR ''A'' \<le> c \<and> c \<le> CHR ''Z''))"

text \<open>
  The backward walk of \<open>splitPossible\<close>:
  \<^verbatim>\<open>start := idx - 1; for start >= 0 && isSchemeChar(cur[start]) { start-- }; start++\<close>.
  The argument and the result are \<open>start + 1\<close>, which is never negative.
\<close>

fun schemeStart :: "string \<Rightarrow> nat \<Rightarrow> nat" where
  "schemeStart cur 0 = 0"
| "schemeStart cur (Suc k) = (if isSchemeChar (cur ! k) then schemeStart cur k else Suc k)"

lemma schemeStart_le: "schemeStart cur k \<le> k"
  by (induction k) auto

lemma Index_bound: "Index s sep = Some i \<Longrightarrow> i + length sep \<le> length s"
proof (induction s arbitrary: i)
  case Nil
  then show ?case by (simp split: if_splits)
next
  case (Cons c cs)
  show ?case
  proof (cases "HasPrefix (c # cs) sep")
    case True
    then have "length sep \<le> length (c # cs)"
      by (rule HasPrefix_length)
    with True Cons.prems show ?thesis by simp
  next
    case False
    with Cons.prems obtain j where "Index cs sep = Some j" "i = Suc j" by auto
    with Cons.IH show ?thesis by auto
  qed
qed

text \<open>
  The loop of \<open>splitPossible\<close>, with \<open>cur\<close> and \<open>parts\<close> as its state. \<open>rest[3:]\<close> is in
  range: \<open>rest\<close> starts at or before an occurrence of \<open>://\<close>.
\<close>

function splitLoop :: "string \<Rightarrow> string list \<Rightarrow> string list" where
  "splitLoop cur parts =
     (case Index cur ''://'' of
        None \<Rightarrow> parts
      | Some idx \<Rightarrow>
          (let start = schemeStart cur idx;
               rest = drop start cur
           in case Index (drop 3 rest) ''://'' of
                Some next \<Rightarrow>
                  splitLoop (drop (next + 3) rest) (parts @ [TrimSpace (take (next + 3) rest)])
              | None \<Rightarrow> parts @ [TrimSpace rest]))"
  by pat_completeness auto
termination
proof (relation "measure (\<lambda>(cur, parts). length cur)", goal_cases)
  case 1
  show ?case by simp
next
  case (2 cur parts idx start rest nxt)
  from Index_bound [OF 2(1)] have "3 \<le> length cur" by simp
  then show ?case using 2 by simp
qed

declare splitLoop.simps [simp del]

definition splitPossible :: "string \<Rightarrow> string list" where
  "splitPossible s = (if Count s ''://'' \<le> 1 then [s] else splitLoop s [])"

section \<open>The regular expressions\<close>

text \<open>
  \<open>rePossibleB64\<close> is \<^verbatim>\<open>^[A-Za-z0-9+/=\r\n]+$\<close>: a non-empty text of bytes of that class
  (without the multi-line flag, \<open>$\<close> is the end of the text).
\<close>

definition b64Class :: "char \<Rightarrow> bool" where
  "b64Class c =
     ((CHR ''A'' \<le> c \<and> c \<le> CHR ''Z'') \<or> (CHR ''a'' \<le> c \<and> c \<le> CHR ''z'') \<or>
      (CHR ''0'' \<le> c \<and> c \<le> CHR ''9'') \<or> c = CHR ''+'' \<or> c = CHR ''/'' \<or> c = CHR ''='' \<or>
      c = CHR 0x0D \<or> c = CHR 0x0A)"

definition rePossibleB64 :: "string \<Rightarrow> bool" where
  "rePossibleB64 s = (s \<noteq> [] \<and> list_all b64Class s)"

text \<open>
  \<open>reCommentLine\<close> is \<^verbatim>\<open>^\s*(#|//|;).*$\<close>. In Go's syntax \<open>\s\<close> is one of tab, line
  feed, form feed, carriage return and space, and \<open>.\<close> is any character but the line feed.
  None of the three markers starts with a \<open>\s\<close> byte, so \<open>\s*\<close> takes the whole run.
\<close>

definition reSpace :: "char \<Rightarrow> bool" where
  "reSpace c = (c = CHR 0x09 \<or> c = CHR 0x0A \<or> c = CHR 0x0C \<or> c = CHR 0x0D \<or> c = CHR 0x20)"

definition reCommentLine :: "string \<Rightarrow> bool" where
  "reCommentLine s =
     (let t = dropWhile reSpace s
      in (HasPrefix t ''#'' \<and> CHR 0x0A \<notin> set (drop 1 t)) \<or>
         (HasPrefix t ''//'' \<and> CHR 0x0A \<notin> set (drop 2 t)) \<or>
         (HasPrefix t '';'' \<and> CHR 0x0A \<notin> set (drop 1 t)))"

section \<open>Standard base64\<close>

text \<open>
  \<open>base64.StdEncoding\<close>: the standard alphabet with \<open>=\<close> padding, not strict. A byte is
  read as a number with \<^const>\<open>of_char\<close>; the shifts and masks of the Go code are written
  as \<open>div\<close> and \<open>mod\<close>, and the \<open>|\<close> of bit fields that do not overlap as \<open>+\<close>.
\<close>

definition encodeStd :: string where
  "encodeStd = ''ABCDEFGHIJKLMNOPQRSTUVWXYZabcdefghijklmnopqrstuvwxyz0123456789+/''"

definition enc6 :: "nat \<Rightarrow> char" where
  "enc6 v = encodeStd ! (v mod 64)"

fun EncodeToString :: "string \<Rightarrow> string" where
  "EncodeToString [] = []"
| "EncodeToString [a] =
     (let val = of_char a * 65536
      in [enc6 (val div 262144), enc6 (val div 4096), CHR ''='', CHR ''=''])"
| "EncodeToString [a, b] =
     (let val = of_char a * 65536 + of_char b * 256
      in [enc6 (val div 262144), enc6 (val div 4096), enc6 (val div 64), CHR ''=''])"
| "EncodeToString (a # b # c # src) =
     (let val = of_char a * 65536 + of_char b * 256 + of_char c
      in [enc6 (val div 262144), enc6 (val div 4096), enc6 (val div 64), enc6 val])
     @ EncodeToString src"

fun indexByte :: "string \<Rightarrow> char \<Rightarrow> nat option" where
  "indexByte [] c = None"
| "indexByte (x # xs) c = (if x = c then Some 0 else map_option Suc (indexByte xs c))"

text \<open>\<open>decodeMap\<close>: the value of an alphabet byte; Go's \<open>0xff\<close> for any other byte is \<open>None\<close>.\<close>

definition decodeMap :: "char \<Rightarrow> nat option" where
  "decodeMap c = indexByte encodeStd c"

definition isNewline :: "char \<Rightarrow> bool" where
  "isNewline c = (c = CHR 0x0A \<or> c = CHR 0x0D)"

text \<open>
  The end of \<open>decodeQuantum\<close>: \<open>dbuf\<close> is the array of four 6-bit values, zero where
  nothing was stored, and \<open>dlen - 1\<close> bytes come out.
\<close>

definition quantum :: "nat list \<Rightarrow> nat \<Rightarrow> string" where
  "quantum dbuf dlen =
     (let d = dbuf @ replicate (4 - length dbuf) 0;
          val = d ! 0 * 262144 + d ! 1 * 4096 + d ! 2 * 64 + d ! 3
      in take (dlen - 1) [char_of (val div 65536), char_of (val div 256), char_of val])"

text \<open>
  \<open>Decode\<close> is a loop of \<open>decodeQuantum\<close>; \<open>decodeFrom dbuf src\<close> is that loop with the
  values stored so far in the current quantum (\<open>j = length dbuf\<close>) and the input still to
  read. A line feed or carriage return is skipped wherever it stands. \<open>None\<close> is
  \<open>CorruptInputError\<close>; the program never uses the partial result Go returns with it.
\<close>

fun decodeFrom :: "nat list \<Rightarrow> string \<Rightarrow> string option" where
  "decodeFrom dbuf [] = (if dbuf = [] then Some [] else None)"
| "decodeFrom dbuf (c # src) =
     (case decodeMap c of
        Some v \<Rightarrow>
          (if length dbuf = 3
           then map_option ((@) (quantum (dbuf @ [v]) 4)) (decodeFrom [] src)
           else decodeFrom (dbuf @ [v]) src)
      | None \<Rightarrow>
          (if isNewline c then decodeFrom dbuf src
           else if c \<noteq> CHR ''='' then None
           else if length dbuf < 2 then None
           else if length dbuf = 2 then
             (case dropWhile isNewline src of
                [] \<Rightarrow> None
              | p # after \<Rightarrow>
                  (if p \<noteq> CHR ''='' then None
                   else if dropWhile isNewline after \<noteq> [] then None
                   else Some (quantum dbuf 2)))
           else if dropWhile isNewline src \<noteq> [] then None
           else Some (quantum dbuf 3)))"

definition DecodeString :: "string \<Rightarrow> string option" where
  "DecodeString s = decodeFrom [] s"

section \<open>PayloadDecoder\<close>

definition hasScheme :: "(nat \<Rightarrow> nat) \<Rightarrow> string \<Rightarrow> bool" where
  "hasScheme table dec =
     (let l = ToLower table dec
      in Contains l ''vless://'' \<or> Contains l ''vmess://'' \<or> Contains l ''ss://'')"

text \<open>\<open>strings.ReplaceAll(s, "\n", "")\<close> deletes every line feed.\<close>

definition stripLF :: "string \<Rightarrow> string" where
  "stripLF s = filter (\<lambda>c. c \<noteq> CHR 0x0A) s"

text \<open>
  The two calls of \<open>DecodeString\<close> in \<open>tryDecodeIfBase64\<close>: the first on the trimmed
  payload and, when that gives an error, the second on the trimmed payload without its
  line feeds. \<open>decodeAttempts\<close> gives the texts handed to \<open>DecodeString\<close>, in the order of
  the calls, and what the last call gave: the decoded bytes, or \<open>None\<close> for an error.
\<close>

definition decodeAttempts :: "string \<Rightarrow> string list \<times> string option" where
  "decodeAttempts trim =
     (case DecodeString trim of
        Some dec \<Rightarrow> ([trim], Some dec)
      | None \<Rightarrow> ([trim, stripLF trim], DecodeString (stripLF trim)))"

definition tryDecodeIfBase64 :: "(nat \<Rightarrow> nat) \<Rightarrow> string \<Rightarrow> string" where
  "tryDecodeIfBase64 table b =
     (let trim = TrimSpace b
      in if trim = [] then trim
         else if \<not> rePossibleB64 trim then b
         else
           (case snd (decodeAttempts trim) of
              None \<Rightarrow> b
            | Some dec \<Rightarrow> if hasScheme table dec then dec else b))"

section \<open>LineExtractor and SchemeFilter\<close>

text \<open>
  \<open>bufio.Scanner\<close> with \<open>ScanLines\<close> and a buffer that grows to \<open>maxTokenSize\<close> bytes: a
  line ends at a line feed or at the end of the input, and one trailing carriage return is
  dropped. When \<open>maxTokenSize\<close> bytes hold no line feed the buffer cannot grow, \<open>Scan\<close>
  sets \<open>ErrTooLong\<close> and returns false. \<open>parseAndFilterLines\<close> never reads \<open>sc.Err()\<close>,
  so all that is left of the error is that the loop ends.
\<close>

definition maxTokenSize :: nat where
  "maxTokenSize = 10 * 1024 * 1024"

definition dropCR :: "string \<Rightarrow> string" where
  "dropCR line = (if line \<noteq> [] \<and> last line = CHR 0x0D then butlast line else line)"

function scanLines :: "string \<Rightarrow> string list" where
  "scanLines data =
     (if data = [] then []
      else
        (let line = takeWhile (\<lambda>c. c \<noteq> CHR 0x0A) data
         in if maxTokenSize \<le> length line then []
            else dropCR line # scanLines (drop (Suc (length line)) data)))"
  by pat_completeness auto
termination
  by (relation "measure length") auto

declare scanLines.simps [simp del]

definition normalizeScheme :: "(nat \<Rightarrow> nat) \<Rightarrow> string \<Rightarrow> string" where
  "normalizeScheme table s =
     (case Index s ''://'' of
        None \<Rightarrow> s
      | Some idx \<Rightarrow> ToLower table (take idx s) @ drop idx s)"

text \<open>The \<open>allowed\<close> map has no values: it is its set of keys.\<close>

definition schemeAllowed :: "(nat \<Rightarrow> nat) \<Rightarrow> string set \<Rightarrow> string \<Rightarrow> bool" where
  "schemeAllowed table allowed it =
     (\<exists>sch \<in> allowed. HasPrefix (ToLower table it) (sch @ ''://''))"

text \<open>The inner loop of \<open>parseAndFilterLines\<close>, over the items of one line.\<close>

fun filterItems ::
  "(nat \<Rightarrow> nat) \<Rightarrow> string set \<Rightarrow> string list \<Rightarrow> string list \<Rightarrow> string list" where
  "filterItems table allowed out [] = out"
| "filterItems table allowed out (it0 # items) =
     (let it = TrimSpace it0
      in if it = [] \<or> reCommentLine it then filterItems table allowed out items
         else if \<not> schemeAllowed table allowed it then filterItems table allowed out items
         else filterItems table allowed (out @ [normalizeScheme table it]) items)"

text \<open>The outer loop, over the lines the scanner gives.\<close>

fun filterLines ::
  "(nat \<Rightarrow> nat) \<Rightarrow> string set \<Rightarrow> string list \<Rightarrow> string list \<Rightarrow> string list" where
  "filterLines table allowed out [] = out"
| "filterLines table allowed out (text # lines) =
     (let line = TrimSpace text
      in if line = [] \<or> reCommentLine line then filterLines table allowed out lines
         else filterLines table allowed (filterItems table allowed out (splitPossible line))
                lines)"

definition parseAndFilterLines :: "(nat \<Rightarrow> nat) \<Rightarrow> string \<Rightarrow> string set \<Rightarrow> string list" where
  "parseAndFilterLines table b allowed = filterLines table allowed [] (scanLines b)"

section \<open>Deduplicator and ListProjector\<close>

fun dedupeLoop :: "string set \<Rightarrow> string list \<Rightarrow> string list \<Rightarrow> string list" where
  "dedupeLoop seen out [] = out"
| "dedupeLoop seen out (s # rest) =
     (let k = TrimSpace s
      in if k = [] then dedupeLoop seen out rest
         else if k \<in> seen then dedupeLoop seen out rest
         else dedupeLoop (insert k seen) (out @ [k]) rest)"

definition dedupe :: "string list \<Rightarrow> string list" where
  "dedupe inp = dedupeLoop {} [] inp"

text \<open>
  \<open>n\<close> is a Go \<open>int\<close>. The function compares it and subtracts it from a length it does
  not exceed, so nothing can overflow and \<^typ>\<open>int\<close> is exact. \<open>normal[start:]\<close> is
  in range: \<open>0 \<le> start \<le> len(normal)\<close>.
\<close>

definition buildLiteTail :: "string list \<Rightarrow> int \<Rightarrow> string list" where
  "buildLiteTail normal n =
     (let n1 = (if n \<le> 0 then 100 else n);
          n2 = (if n1 > int (length normal) then int (length normal) else n1);
          start = int (length normal) - n2
      in drop (nat start) normal)"

section \<open>EncodedWriter\<close>

fun Join :: "string list \<Rightarrow> string \<Rightarrow> string" where
  "Join [] sep = []"
| "Join [x] sep = x"
| "Join (x # y # zs) sep = x @ sep @ Join (y # zs) sep"

text \<open>The first two lines of \<open>writeBase64Atomic\<close>: what is written to the file.\<close>

definition encodePayload :: "string list \<Rightarrow> string" where
  "encodePayload lines = EncodeToString (Join lines [CHR 0x0A])"

text \<open>
  The file system is a map from paths to file contents. What the operating system answers
  is an input of the model: the name \<open>os.CreateTemp\<close> picks (or its failure), whether the
  write, the flush and the close succeed, how many bytes \<open>bufio.Writer\<close> still holds back
  after \<open>WriteString\<close>, and for each turn of the retry loop whether \<open>os.Remove(path)\<close>
  removes the file and what \<open>os.Rename\<close> returns: success, an error whose text names a
  busy file, or another error. Removing the temporary file is taken to succeed. The result
  is the list of the states of the file system after each operation, oldest first, and
  the error returned, if any.
\<close>

type_synonym fs = "string \<Rightarrow> string option"

datatype renameOutcome = RenameOk | RenameBusy | RenameOther

datatype writeError =
  CreateTempFailed | WriteFailed | FlushFailed | CloseFailed
  | RenameFailed nat | RenameFailedAfterRetries

record osAnswers =
  tempName :: "string option"
  writeOk :: bool
  held :: nat
  flushOk :: bool
  closeOk :: bool
  removeOk :: "nat \<Rightarrow> bool"
  renameResult :: "nat \<Rightarrow> renameOutcome"

definition maxRetries :: nat where
  "maxRetries = 6"

text \<open>
  The retry loop. \<open>st\<close> is the current state and \<open>trace\<close> the states before it. The
  sleep between two tries changes nothing in the state.
\<close>

function renameLoop ::
  "osAnswers \<Rightarrow> string \<Rightarrow> string \<Rightarrow> nat \<Rightarrow> fs list \<Rightarrow> fs \<Rightarrow> fs list \<times> writeError option" where
  "renameLoop os tmpPath path i trace st =
     (if i < maxRetries then
        (let st1 = (if removeOk os i then st(path := None) else st)
         in case renameResult os i of
              RenameOk \<Rightarrow>
                (trace @ [st, st1, st1(path := st1 tmpPath, tmpPath := None)], None)
            | RenameBusy \<Rightarrow>
                (if i < maxRetries - 1
                 then renameLoop os tmpPath path (Suc i) (trace @ [st]) st1
                 else (trace @ [st, st1, st1(tmpPath := None)], Some (RenameFailed (i + 1))))
            | RenameOther \<Rightarrow>
                (trace @ [st, st1, st1(tmpPath := None)], Some (RenameFailed (i + 1))))
      else (trace @ [st, st(tmpPath := None)], Some RenameFailedAfterRetries))"
  by pat_completeness auto
termination
  by (relation "measure (\<lambda>(os, tmpPath, path, i, trace, st). maxRetries - i)") auto

declare renameLoop.simps [simp del]

definition writeBase64Atomic ::
  "osAnswers \<Rightarrow> fs \<Rightarrow> string \<Rightarrow> string list \<Rightarrow> fs list \<times> writeError option" where
  "writeBase64Atomic os st0 path lines =
     (let encoded = encodePayload lines
      in case tempName os of
           None \<Rightarrow> ([st0], Some CreateTempFailed)
         | Some tmpPath \<Rightarrow>
             (let st1 = st0(tmpPath \<mapsto> [])
              in if \<not> writeOk os then ([st0, st1, st1(tmpPath := None)], Some WriteFailed)
                 else
                   (let st2 = st1(tmpPath \<mapsto> take (length encoded - held os) encoded)
                    in if \<not> flushOk os
                       then ([st0, st1, st2, st2(tmpPath := None)], Some FlushFailed)
                       else
                         (let st3 = st2(tmpPath \<mapsto> encoded)
                          in if \<not> closeOk os
                             then ([st0, st1, st2, st3, st3(tmpPath := None)], Some CloseFailed)
                             else renameLoop os tmpPath path 0 [st0, st1, st2] st3))))"

text \<open>\<open>sort.Strings\<close> orders by Go's \<open><\<close> on strings, the lexicographic order of the bytes.\<close>

definition writeBase64Sorted ::
  "osAnswers \<Rightarrow> fs \<Rightarrow> string \<Rightarrow> string list \<Rightarrow> fs list \<times> writeError option" where
  "writeBase64Sorted os st0 path lines = writeBase64Atomic os st0 path (sort lines)"

definition writeBase64NoSort ::
  "osAnswers \<Rightarrow> fs \<Rightarrow> string \<Rightarrow> string list \<Rightarrow> fs list \<times> writeError option" where
  "writeBase64NoSort os st0 path lines = writeBase64Atomic os st0 path lines"

section \<open>Configuration and the run of one source\<close>

record Subscription =
  Key :: string
  URL :: string

record LiteCfg =
  Strategy :: string
  MaxTotal :: int
  PerHostLimit :: int
  N :: int

record Config =
  AllowedSchemes :: "string list"
  Lite :: LiteCfg
  Subscriptions :: "Subscription list"

text \<open>The defaults \<open>loadConfig\<close> applies to the configuration it has read.\<close>

definition loadConfigDefaults :: "Config \<Rightarrow> Config" where
  "loadConfigDefaults cfg =
     (let l0 = Lite cfg;
          l1 = (if MaxTotal l0 \<le> 0 then l0\<lparr>MaxTotal := 100\<rparr> else l0);
          l2 = (if N l1 \<le> 0 then l1\<lparr>N := 100\<rparr> else l1)
      in cfg\<lparr>Lite := l2\<rparr>)"

definition allowedSet :: "(nat \<Rightarrow> nat) \<Rightarrow> Config \<Rightarrow> string set" where
  "allowedSet table cfg =
     (let allowed = set (map (\<lambda>s. ToLower table (TrimSpace s)) (AllowedSchemes cfg))
      in if allowed = {} then {''vless'', ''vmess'', ''ss''} else allowed)"

text \<open>
  The body of the loop of \<open>main\<close> for a source whose fetch gave \<open>raw\<close>, up to the two
  lists it writes: \<open>normal\<close> (written sorted) and \<open>lite\<close>.
\<close>

definition mainBody ::
  "(nat \<Rightarrow> nat) \<Rightarrow> Config \<Rightarrow> string \<Rightarrow> string list \<times> string list" where
  "mainBody table cfg raw =
     (let decoded = tryDecodeIfBase64 table raw;
          valid = parseAndFilterLines table decoded (allowedSet table cfg);
          normal = dedupe valid;
          lite = buildLiteTail normal 100
      in (normal, lite))"

section \<open>Reading an output back\<close>

text \<open>
  The program never reads its outputs. A reader decodes the file and splits the text at
  each line feed, as \<open>strings.Split\<close> does: the pieces between the separators, so one
  piece more than there are separators.
\<close>

fun Split :: "string \<Rightarrow> char \<Rightarrow> string list" where
  "Split [] sep = [[]]"
| "Split (c # cs) sep =
     (if c = sep then [] # Split cs sep
      else (c # hd (Split cs sep)) # tl (Split cs sep))"

section \<open>The specification's order of first occurrences\<close>

text \<open>
  The specification of the Deduplicator in its own words, to compare \<open>dedupe\<close> with: every
  distinct string once, at the place of its first occurrence.
\<close>

fun firstOccurrences :: "string list \<Rightarrow> string list" where
  "firstOccurrences [] = []"
| "firstOccurrences (x # xs) = x # firstOccurrences (removeAll x xs)"

section \<open>The specification's stripping\<close>

text \<open>
  What the specification says is stripped before the second decoding: all newline
  characters, the carriage returns as well as the line feeds. The code strips with
  \<open>stripLF\<close>.
\<close>

definition stripNewlines :: "string \<Rightarrow> string" where
  "stripNewlines s = filter (\<lambda>c. \<not> isNewline c) s"

section \<open>Facts about trimming\<close>

lemma stripFront_None: "leading ps s = None \<Longrightarrow> stripFront ps s = s"
  by (subst stripFront.simps) simp

lemma leading_stripFront: "leading ps (stripFront ps s) = None"
proof (induction ps s rule: stripFront.induct)
  case (1 ps s)
  show ?case
  proof (cases "leading ps s")
    case None
    then show ?thesis by (simp add: stripFront_None)
  next
    case (Some p)
    with "1.IH" show ?thesis by (subst stripFront.simps) simp
  qed
qed

lemma stripFront_drop: "\<exists>k. stripFront ps s = drop k s"
proof (induction ps s rule: stripFront.induct)
  case (1 ps s)
  show ?case
  proof (cases "leading ps s")
    case None
    then have "stripFront ps s = drop 0 s" by (simp add: stripFront_None)
    then show ?thesis by blast
  next
    case (Some p)
    with "1.IH" obtain k where "stripFront ps (drop (length p) s) = drop k (drop (length p) s)"
      by blast
    with Some have "stripFront ps s = drop (length p + k) s"
      by (subst stripFront.simps) (simp add: add.commute)
    then show ?thesis by blast
  qed
qed

lemma TrimSpace_take: "\<exists>k. TrimSpace s = take k (stripFront spaceRunes s)"
proof -
  let ?t = "stripFront spaceRunes s"
  obtain k where "stripFront (map rev spaceRunes) (rev ?t) = drop k (rev ?t)"
    using stripFront_drop by blast
  then have "TrimSpace s = take (length ?t - k) ?t"
    unfolding TrimSpace_def by (simp add: rev_drop)
  then show ?thesis by blast
qed

lemma length_TrimSpace: "length (TrimSpace s) \<le> length s"
proof -
  obtain k where k: "TrimSpace s = take k (stripFront spaceRunes s)"
    using TrimSpace_take by blast
  obtain j where "stripFront spaceRunes s = drop j s"
    using stripFront_drop by blast
  with k show ?thesis by simp
qed

lemma leading_take: "leading ps s = None \<Longrightarrow> leading ps (take k s) = None"
  unfolding leading_def HasPrefix_def find_None_iff
  by (metis append_eq_conv_conj append_take_drop_id take_take min.commute take_all_iff  nat_le_linear)

lemma TrimSpace_idem: "TrimSpace (TrimSpace s) = TrimSpace s"
proof -
  obtain k where k: "TrimSpace s = take k (stripFront spaceRunes s)"
    using TrimSpace_take by blast
  have front: "leading spaceRunes (TrimSpace s) = None"
    unfolding k by (rule leading_take) (rule leading_stripFront)
  have rear: "leading (map rev spaceRunes) (rev (TrimSpace s)) = None"
    unfolding TrimSpace_def by (simp add: leading_stripFront)
  have "TrimSpace (TrimSpace s) =
      rev (stripFront (map rev spaceRunes) (rev (TrimSpace s)))"
    by (subst TrimSpace_def) (simp add: stripFront_None [OF front])
  also have "\<dots> = TrimSpace s"
    by (simp add: stripFront_None [OF rear])
  finally show ?thesis .
qed


section \<open>Facts about the Deduplicator and the tail\<close>

lemma removeAll_filter_conv: "removeAll k (filter P ys) = filter (\<lambda>y. P y \<and> y \<noteq> k) ys"
  by (induction ys) auto

lemma dedupeLoop_firstOccurrences:
  "dedupeLoop seen out xs =
     out @ firstOccurrences (filter (\<lambda>k. k \<noteq> [] \<and> k \<notin> seen) (map TrimSpace xs))"
proof (induction xs arbitrary: seen out)
  case Nil
  then show ?case by simp
next
  case (Cons s rest)
  let ?k = "TrimSpace s"
  show ?case
  proof (cases "?k = [] \<or> ?k \<in> seen")
    case True
    then show ?thesis using Cons.IH [of seen out] by (auto simp: Let_def)
  next
    case False
    have "(\<lambda>y. (y \<noteq> [] \<and> y \<notin> seen) \<and> y \<noteq> ?k) = (\<lambda>y. y \<noteq> [] \<and> y \<notin> insert ?k seen)"
      by auto
    with False show ?thesis
      using Cons.IH [of "insert ?k seen" "out @ [?k]"]
      by (simp add: removeAll_filter_conv Let_def)
  qed
qed

lemma set_firstOccurrences: "set (firstOccurrences ys) = set ys"
  by (induction ys rule: firstOccurrences.induct) auto

lemma distinct_firstOccurrences: "distinct (firstOccurrences ys)"
  by (induction ys rule: firstOccurrences.induct) (auto simp: set_firstOccurrences)

lemma dedupe_trimmed: "k \<in> set (dedupe xs) \<Longrightarrow> TrimSpace k = k"
  unfolding dedupe_def dedupeLoop_firstOccurrences
  by (auto simp: set_firstOccurrences TrimSpace_idem)

lemma tail_start:
  fixes m :: int and len :: nat
  assumes "0 < m"
  shows "nat (int len - (if m > int len then int len else m)) = len - min (nat m) len"
  using assms by (cases "m > int len") (simp_all add: min_def, arith+)

lemma buildLiteTail_drop:
  "buildLiteTail normal n =
     drop (length normal - min (nat (if n \<le> 0 then 100 else n)) (length normal)) normal"
proof -
  define m where "m = (if n \<le> 0 then 100 else n)"
  then have pos: "0 < m" by simp
  have "buildLiteTail normal n =
      drop (nat (int (length normal) - (if m > int (length normal) then int (length normal) else m))) normal"
    unfolding buildLiteTail_def Let_def m_def ..
  then have "buildLiteTail normal n = drop (length normal - min (nat m) (length normal)) normal"
    by (simp only: tail_start [OF pos])
  then show ?thesis
    unfolding m_def .
qed

section \<open>Evaluating the scanner\<close>

lemma scan_one_line: "scanLines ''vless://A vmess://B'' = [''vless://A vmess://B'']"
  by (simp add: scanLines.simps maxTokenSize_def dropCR_def)

lemma scan_two_lines: "scanLines ''ss://a\<newline>ss://b'' = [''ss://a'', ''ss://b'']"
  by (simp add: scanLines.simps maxTokenSize_def dropCR_def)

lemma plain_two_lines:
  "tryDecodeIfBase64 table ''ss://a\<newline>ss://b'' = ''ss://a\<newline>ss://b''"
  by code_simp

section \<open>Facts about the scanner\<close>

lemma scanLines_stops:
  assumes "CHR 0x0A \<notin> set long" and "maxTokenSize \<le> length long"
  shows "pre = [] \<or> last pre = CHR 0x0A \<Longrightarrow> scanLines (pre @ long @ rest) = scanLines pre"
proof (induction pre rule: scanLines.induct)
  case (1 pre)
  let ?nl = "\<lambda>c. c \<noteq> CHR 0x0A"
  show ?case
  proof (cases "pre = []")
    case True
    have "takeWhile ?nl (long @ rest) = long @ takeWhile ?nl rest"
      using assms by (intro takeWhile_append2) auto
    then have "maxTokenSize \<le> length (takeWhile ?nl (long @ rest))"
      using assms by simp
    with True show ?thesis
      by (subst scanLines.simps, subst (2) scanLines.simps) simp
  next
    case False
    with "1.prems" have nl: "CHR 0x0A \<in> set pre"
      by (metis last_in_set)
    define line where "line = takeWhile ?nl pre"
    have line: "takeWhile ?nl (pre @ long @ rest) = line"
      unfolding line_def using nl by (intro takeWhile_append1 [where x = "CHR 0x0A"]) auto
    have "dropWhile ?nl pre \<noteq> []"
      using nl by (auto simp: dropWhile_eq_Nil_conv)
    moreover have "length line + length (dropWhile ?nl pre) = length pre"
      unfolding line_def by (metis length_append takeWhile_dropWhile_id)
    ultimately have short: "length line < length pre"
      by (cases "dropWhile ?nl pre") auto
    show ?thesis
    proof (cases "maxTokenSize \<le> length line")
      case True
      then show ?thesis
        using False line line_def
        by (subst scanLines.simps, subst (2) scanLines.simps) simp
    next
      case long_enough: False
      let ?pre' = "drop (Suc (length line)) pre"
      have "?pre' = [] \<or> last ?pre' = CHR 0x0A"
      proof (cases "Suc (length line) < length pre")
        case True
        then have "last ?pre' = last pre" by (rule last_drop)
        with "1.prems" False show ?thesis by simp
      next
        case False
        then show ?thesis by simp
      qed
      with "1.IH" [OF False line_def long_enough]
      have "scanLines (?pre' @ long @ rest) = scanLines ?pre'"
        by simp
      moreover have "drop (Suc (length line)) (pre @ long @ rest) = ?pre' @ long @ rest"
        using short by simp
      ultimately show ?thesis
        using False line line_def long_enough
        by (subst scanLines.simps, subst (2) scanLines.simps) (simp add: Let_def)
    qed
  qed
qed

lemma scan_first_line: "scanLines ''ss://a\<newline>'' = [''ss://a'']"
  by (simp add: scanLines.simps maxTokenSize_def dropCR_def)

section \<open>Facts about lower case and the scheme filter\<close>

lemma of_char_lowerByte:
  "(of_char (lowerByte c) :: nat) =
     (if 65 \<le> (of_char c :: nat) \<and> (of_char c :: nat) \<le> 90 then of_char c + 32 else of_char c)"
proof -
  have "(of_char c :: nat) < 256" by simp
  then show ?thesis
    by (simp add: lowerByte_def less_eq_char_def)
qed

lemma lowerByte_eq_iff:
  assumes "\<not> (97 \<le> (of_char k :: nat) \<and> (of_char k :: nat) \<le> 122)"
    and "\<not> (65 \<le> (of_char k :: nat) \<and> (of_char k :: nat) \<le> 90)"
  shows "lowerByte c = k \<longleftrightarrow> c = k"
proof
  assume "lowerByte c = k"
  then have "(of_char (lowerByte c) :: nat) = of_char k" by simp
  then have "(of_char c :: nat) = of_char k"
    using assms by (simp add: of_char_lowerByte split: if_splits)
  then show "c = k" by simp
next
  assume "c = k"
  then show "lowerByte c = k"
    using assms(2) by (auto simp: lowerByte_def less_eq_char_def)
qed

lemma lowerByte_colon [simp]: "lowerByte c = CHR '':'' \<longleftrightarrow> c = CHR '':''"
  by (rule lowerByte_eq_iff) simp_all

lemma lowerByte_slash [simp]: "lowerByte c = CHR ''/'' \<longleftrightarrow> c = CHR ''/''"
  by (rule lowerByte_eq_iff) simp_all

lemma HasPrefix_sep_lower: "HasPrefix (map lowerByte s) ''://'' = HasPrefix s ''://''"
proof (cases s)
  case Nil
  then show ?thesis by (simp add: HasPrefix_def)
next
  case s1: (Cons a s1)
  show ?thesis
  proof (cases s1)
    case Nil
    with s1 show ?thesis by (simp add: HasPrefix_def)
  next
    case s2: (Cons b s2)
    show ?thesis
    proof (cases s2)
      case Nil
      with s1 s2 show ?thesis by (simp add: HasPrefix_def)
    next
      case (Cons c s3)
      with s1 s2 show ?thesis by (simp add: HasPrefix_def)
    qed
  qed
qed

lemma Index_lowerByte: "Index (map lowerByte s) ''://'' = Index s ''://''"
proof (induction s)
  case Nil
  then show ?case by simp
next
  case (Cons c cs)
  have "HasPrefix (map lowerByte (c # cs)) ''://'' = HasPrefix (c # cs) ''://''"
    by (rule HasPrefix_sep_lower)
  with Cons.IH show ?case by simp
qed

lemma Index_found: "HasPrefix (drop k s) sep \<Longrightarrow> k \<le> length s \<Longrightarrow> \<exists>i. Index s sep = Some i"
proof (induction s arbitrary: k)
  case Nil
  then show ?case by (simp add: HasPrefix_def)
next
  case (Cons c cs)
  show ?case
  proof (cases k)
    case 0
    with Cons.prems show ?thesis by simp
  next
    case (Suc j)
    with Cons.prems have "HasPrefix (drop j cs) sep" "j \<le> length cs" by simp_all
    from Cons.IH [OF this] show ?thesis by auto
  qed
qed

lemma HasPrefix_append: "HasPrefix s (p @ q) \<Longrightarrow> HasPrefix (drop (length p) s) q"
  unfolding HasPrefix_def
  by (metis append_eq_conv_conj append_take_drop_id drop_take length_append add_diff_cancel_left')

lemma Index_HasPrefix: "Index s sep = Some i \<Longrightarrow> HasPrefix (drop i s) sep"
proof (induction s arbitrary: i)
  case Nil
  then show ?case by (simp add: HasPrefix_def split: if_splits)
next
  case (Cons c cs)
  show ?case
  proof (cases "HasPrefix (c # cs) sep")
    case True
    with Cons.prems show ?thesis by simp
  next
    case False
    with Cons.prems obtain j where "Index cs sep = Some j" "i = Suc j" by auto
    with Cons.IH show ?thesis by auto
  qed
qed

lemma Index_middle: "\<exists>i. Index (pre @ sep @ post) sep = Some i"
proof (rule Index_found)
  show "HasPrefix (drop (length pre) (pre @ sep @ post)) sep"
    by (simp add: HasPrefix_def)
  show "length pre \<le> length (pre @ sep @ post)"
    by simp
qed

text \<open>
  The bytes \<open>:\<close> and \<open>/\<close> in what \<open>mapRunes\<close> writes. A byte of a rune beyond ASCII is
  128 or more, in the text and in what \<open>AppendRune\<close> writes, so a \<open>:\<close> or a \<open>/\<close> is written
  for one rune only, and when the mapping gives these two runes for themselves only, it
  is written for the same byte of the text.
\<close>

definition plain :: "char \<Rightarrow> bool" where
  "plain b = (b = CHR '':'' \<or> b = CHR ''/'')"

definition high :: "char \<Rightarrow> bool" where
  "high b = (0x80 \<le> (of_char b :: nat))"

lemma high_not_plain: "high b \<Longrightarrow> \<not> plain b"
  by (auto simp: high_def plain_def)

lemma high_char_of: "0x80 \<le> n \<Longrightarrow> n < 0x100 \<Longrightarrow> high (char_of (n::nat))"
  by (simp add: high_def)

lemma AppendRune_high:
  assumes "0x7F < r"
  shows "\<forall>b \<in> set (AppendRune r). high b"
proof -
  have m: "r mod 64 < 64" "r div 64 mod 64 < 64" "r div 4096 mod 64 < 64" by simp_all
  have d2: "r \<le> 0x7FF \<Longrightarrow> r div 64 < 32"
    by (intro less_mult_imp_div_less) simp
  have d3: "r \<le> 0xFFFF \<Longrightarrow> r div 4096 < 16"
    by (intro less_mult_imp_div_less) simp
  have d4: "r \<le> 0x10FFFF \<Longrightarrow> r div 262144 < 5"
    by (intro less_mult_imp_div_less) simp
  have special: "high (CHR 0xEF)" "high (CHR 0xBF)" "high (CHR 0xBD)"
    by (simp_all add: high_def)
  show ?thesis
    unfolding AppendRune_def using assms m d2 d3 d4 special
    by (auto intro!: high_char_of)
qed

lemma AppendRune_ascii: "r \<le> 0x7F \<Longrightarrow> AppendRune r = [char_of r]"
  by (simp add: AppendRune_def)

lemma AppendRune_nonempty: "AppendRune r \<noteq> []"
  by (simp add: AppendRune_def)

text \<open>What decoding the first rune of a text gives.\<close>

lemma DecodeRune_ascii:
  "(of_char c0 :: nat) < 0x80 \<Longrightarrow> DecodeRuneInString (c0 # t) = (of_char c0, 1)"
  by (simp add: DecodeRuneInString_def)

lemma mod_ge_2: "0xC2 \<le> (n::nat) \<Longrightarrow> n < 0xE0 \<Longrightarrow> 2 \<le> n mod 32"
  by presburger

lemma mod_ge_1_16: "0xE1 \<le> (n::nat) \<Longrightarrow> n < 0xF0 \<Longrightarrow> 1 \<le> n mod 16"
  by presburger

lemma mod_ge_1_8: "0xF1 \<le> (n::nat) \<Longrightarrow> n < 0xF5 \<Longrightarrow> 1 \<le> n mod 8"
  by presburger

lemma mod_ge_32: "0xA0 \<le> (n::nat) \<Longrightarrow> n \<le> 0xBF \<Longrightarrow> 32 \<le> n mod 64"
  by presburger

lemma mod_ge_16: "0x90 \<le> (n::nat) \<Longrightarrow> n \<le> 0xBF \<Longrightarrow> 16 \<le> n mod 64"
  by presburger

lemma two_bytes_value:
  assumes "0xC2 \<le> (s0::nat)" "s0 < 0xE0"
  shows "0x80 \<le> s0 mod 32 * 64 + x"
proof -
  from mod_ge_2 [OF assms] have "2 * 64 \<le> s0 mod 32 * 64" by (intro mult_le_mono1)
  then show ?thesis by simp
qed

lemma three_bytes_value:
  assumes "0xE0 \<le> (s0::nat)" "s0 < 0xF0" "acceptLo s0 \<le> s1" "s1 \<le> acceptHi s0"
  shows "0x80 \<le> s0 mod 16 * 4096 + s1 mod 64 * 64 + x"
proof (cases "s0 = 0xE0")
  case True
  with assms have "0xA0 \<le> s1" "s1 \<le> 0xBF" by (simp_all add: acceptLo_def acceptHi_def)
  from mod_ge_32 [OF this] have "32 * 64 \<le> s1 mod 64 * 64" by (intro mult_le_mono1)
  then show ?thesis by simp
next
  case False
  with assms have "0xE1 \<le> s0" by simp
  from mod_ge_1_16 [OF this assms(2)] have "1 * 4096 \<le> s0 mod 16 * 4096"
    by (intro mult_le_mono1)
  then show ?thesis by simp
qed

lemma four_bytes_value:
  assumes "0xF0 \<le> (s0::nat)" "s0 < 0xF5" "acceptLo s0 \<le> s1" "s1 \<le> acceptHi s0"
  shows "0x80 \<le> s0 mod 8 * 262144 + s1 mod 64 * 4096 + x + y"
proof (cases "s0 = 0xF0")
  case True
  with assms have "0x90 \<le> s1" "s1 \<le> 0xBF" by (simp_all add: acceptLo_def acceptHi_def)
  from mod_ge_16 [OF this] have "16 * 4096 \<le> s1 mod 64 * 4096" by (intro mult_le_mono1)
  then show ?thesis by simp
next
  case False
  with assms have "0xF1 \<le> s0" by simp
  from mod_ge_1_8 [OF this assms(2)] have "1 * 262144 \<le> s0 mod 8 * 262144"
    by (intro mult_le_mono1)
  then show ?thesis by simp
qed

lemma accept_high: "acceptLo s0 \<le> (of_char b :: nat) \<Longrightarrow> high b"
  by (auto simp: acceptLo_def high_def split: if_splits)

text \<open>The cases of \<open>DecodeRuneInString\<close> on a text that starts with a byte beyond ASCII.\<close>

lemma DecodeRune_cases:
  fixes c0 :: char
  assumes "0x80 \<le> (of_char c0 :: nat)"
  obtains
    (invalid) "DecodeRuneInString (c0 # t) = (RuneError, 1)"
  | (two) c1 t' where "t = c1 # t'" "0xC2 \<le> (of_char c0 :: nat)" "(of_char c0 :: nat) < 0xE0"
      "acceptLo (of_char c0) \<le> (of_char c1 :: nat)"
      "DecodeRuneInString (c0 # t) = (of_char c0 mod 32 * 64 + of_char c1 mod 64, 2)"
  | (three) c1 c2 t' where "t = c1 # c2 # t'" "0xE0 \<le> (of_char c0 :: nat)"
      "(of_char c0 :: nat) < 0xF0"
      "acceptLo (of_char c0) \<le> (of_char c1 :: nat)" "(of_char c1 :: nat) \<le> acceptHi (of_char c0)"
      "0x80 \<le> (of_char c2 :: nat)"
      "DecodeRuneInString (c0 # t) =
         (of_char c0 mod 16 * 4096 + of_char c1 mod 64 * 64 + of_char c2 mod 64, 3)"
  | (four) c1 c2 c3 t' where "t = c1 # c2 # c3 # t'" "0xF0 \<le> (of_char c0 :: nat)"
      "(of_char c0 :: nat) < 0xF5"
      "acceptLo (of_char c0) \<le> (of_char c1 :: nat)" "(of_char c1 :: nat) \<le> acceptHi (of_char c0)"
      "0x80 \<le> (of_char c2 :: nat)" "0x80 \<le> (of_char c3 :: nat)"
      "DecodeRuneInString (c0 # t) =
         (of_char c0 mod 8 * 262144 + of_char c1 mod 64 * 4096 + of_char c2 mod 64 * 64
          + of_char c3 mod 64, 4)"
proof (cases "DecodeRuneInString (c0 # t) = (RuneError, 1)")
  case True
  then show ?thesis by (rule invalid)
next
  case False
  consider "runeSize (of_char c0) = 2" | "runeSize (of_char c0) = 3" | "runeSize (of_char c0) = 4"
    using False assms by (auto simp: DecodeRuneInString_def runeSize_def split: if_splits)
  then show ?thesis
  proof cases
    case 1
    then have r: "0xC2 \<le> (of_char c0 :: nat)" "(of_char c0 :: nat) < 0xE0"
      by (auto simp: runeSize_def split: if_splits)
    from False 1 assms obtain c1 t' where t: "t = c1 # t'"
      by (cases t) (auto simp: DecodeRuneInString_def)
    from False 1 assms show ?thesis
      by (intro two [OF t r]) (auto simp: DecodeRuneInString_def Let_def t split: if_splits)
  next
    case 2
    then have r: "0xE0 \<le> (of_char c0 :: nat)" "(of_char c0 :: nat) < 0xF0"
      by (auto simp: runeSize_def split: if_splits)
    from False 2 assms obtain c1 c2 t' where t: "t = c1 # c2 # t'"
      by (cases t; cases "tl t") (auto simp: DecodeRuneInString_def)
    from False 2 assms show ?thesis
      by (intro three [OF t r]) (auto simp: DecodeRuneInString_def Let_def t split: if_splits)
  next
    case 3
    then have r: "0xF0 \<le> (of_char c0 :: nat)" "(of_char c0 :: nat) < 0xF5"
      by (auto simp: runeSize_def split: if_splits)
    from False 3 assms obtain c1 c2 c3 t' where t: "t = c1 # c2 # c3 # t'"
      by (cases t; cases "tl t"; cases "tl (tl t)") (auto simp: DecodeRuneInString_def)
    from False 3 assms show ?thesis
      by (intro four [OF t r]) (auto simp: DecodeRuneInString_def Let_def t split: if_splits)
  qed
qed

lemma DecodeRune_high:
  fixes c0 :: char
  assumes "0x80 \<le> (of_char c0 :: nat)"
  shows "0x80 \<le> fst (DecodeRuneInString (c0 # t)) \<and>
         (\<forall>b \<in> set (take (snd (DecodeRuneInString (c0 # t))) (c0 # t)). high b)"
proof -
  have c0: "high c0" using assms by (simp add: high_def)
  from assms show ?thesis
  proof (cases rule: DecodeRune_cases [where t = t])
    case invalid
    with c0 show ?thesis by (simp add: RuneError_def)
  next
    case (two c1 t')
    with c0 accept_high two_bytes_value show ?thesis
      by (simp add: numeral_2_eq_2)
  next
    case (three c1 c2 t')
    with c0 accept_high three_bytes_value [OF three(2-5)] show ?thesis
      by (simp add: numeral_3_eq_3 high_def)
  next
    case (four c1 c2 c3 t')
    have "take 4 (c0 # c1 # c2 # c3 # t') = [c0, c1, c2, c3]"
      by (simp add: numeral_eq_Suc)
    with four c0 accept_high four_bytes_value [OF four(2-5)] show ?thesis
      by (simp add: high_def)
  qed
qed

lemma AppendRune_plain:
  "(\<forall>b \<in> set (tl (AppendRune r)). \<not> plain b) \<and>
   (plain (hd (AppendRune r)) \<longrightarrow> AppendRune r = [hd (AppendRune r)] \<and> r = of_char (hd (AppendRune r)))"
proof (cases "r \<le> 0x7F")
  case True
  then have "r mod 256 = r" by simp
  with True show ?thesis by (simp add: AppendRune_ascii)
next
  case False
  then have all: "\<forall>b \<in> set (AppendRune r). high b" by (intro AppendRune_high) simp
  moreover have "hd (AppendRune r) \<in> set (AppendRune r)"
    using AppendRune_nonempty by simp
  moreover have "set (tl (AppendRune r)) \<subseteq> set (AppendRune r)"
    using AppendRune_nonempty by (metis list.set_sel(2) subsetI)
  ultimately show ?thesis using high_not_plain by blast
qed

definition keepsPlain :: "(nat \<Rightarrow> nat) \<Rightarrow> bool" where
  "keepsPlain f = (\<forall>c. (f c = 0x3A \<longrightarrow> c = 0x3A) \<and> (f c = 0x2F \<longrightarrow> c = 0x2F))"

lemma plain_of_char: "plain b \<Longrightarrow> (of_char b :: nat) = 0x3A \<or> (of_char b :: nat) = 0x2F"
  by (auto simp: plain_def)

lemma of_char_colon: "(of_char b :: nat) = 0x3A \<Longrightarrow> b = CHR '':''"
proof -
  assume "(of_char b :: nat) = 0x3A"
  then have "(of_char b :: nat) = of_char (CHR '':'')" by simp
  then show ?thesis by (simp only: of_char_eq_iff)
qed

lemma of_char_slash: "(of_char b :: nat) = 0x2F \<Longrightarrow> b = CHR ''/''"
proof -
  assume "(of_char b :: nat) = 0x2F"
  then have "(of_char b :: nat) = of_char (CHR ''/'')" by simp
  then show ?thesis by (simp only: of_char_eq_iff)
qed

text \<open>One turn of \<open>mapRunes\<close>: the bytes it writes for the first rune, and the rest.\<close>

lemma mapRunes_step:
  assumes "keepsPlain f" and "s \<noteq> []"
  shows "\<exists>p w ch'. mapRunes f ch s = p @ mapRunes f ch' (drop w s) \<and> p \<noteq> [] \<and>
           1 \<le> w \<and> w \<le> length s \<and> (\<forall>b \<in> set (tl p). \<not> plain b) \<and>
           (plain (hd p) \<longrightarrow> w = 1 \<and> p = [hd s])"
proof -
  from assms(2) obtain c0 t where s: "s = c0 # t" by (cases s) auto
  obtain c w where dec: "DecodeRuneInString s = (c, w)" by (cases "DecodeRuneInString s") auto
  from DecodeRune_width [OF assms(2)] dec have w: "1 \<le> w" "w \<le> length s" by simp_all
  define copy where "copy = (\<not> ch \<and> f c = c \<and> \<not> (c = RuneError \<and> w = 1))"
  define p where "p = (if copy then take w s else AppendRune (f c))"
  define ch' where "ch' = (\<not> copy)"
  have eq: "mapRunes f ch s = p @ mapRunes f ch' (drop w s)"
    using assms(2) dec by (subst mapRunes.simps) (auto simp: p_def ch'_def copy_def Let_def)
  have ne: "p \<noteq> []"
    unfolding p_def using w assms(2) AppendRune_nonempty by simp
  have props: "(\<forall>b \<in> set (tl p). \<not> plain b) \<and> (plain (hd p) \<longrightarrow> w = 1 \<and> p = [hd s])"
  proof (cases "(of_char c0 :: nat) < 0x80")
    case True
    with dec s have cw: "c = of_char c0" "w = 1" by (simp_all add: DecodeRune_ascii)
    show ?thesis
    proof (cases copy)
      case True
      then show ?thesis by (simp add: p_def cw s)
    next
      case False
      then have p: "p = AppendRune (f c)" by (simp add: p_def)
      have "plain (hd p) \<Longrightarrow> p = [hd s]"
      proof -
        assume pl: "plain (hd p)"
        with AppendRune_plain [of "f c"] p have one: "p = [hd p]" and v: "f c = of_char (hd p)"
          by simp_all
        from pl plain_of_char v have "f c = 0x3A \<or> f c = 0x2F" by metis
        with assms(1) v have "c = of_char (hd p)" by (auto simp: keepsPlain_def)
        with cw have "hd p = c0" by simp
        with one s show "p = [hd s]" by simp
      qed
      with AppendRune_plain [of "f c"] p cw show ?thesis by auto
    qed
  next
    case False
    then have hi: "0x80 \<le> (of_char c0 :: nat)" by simp
    from DecodeRune_high [OF hi, of t] dec s
    have c: "0x80 \<le> c" and bytes: "\<forall>b \<in> set (take w s). high b" by simp_all
    show ?thesis
    proof (cases copy)
      case True
      then have p: "p = take w s" by (simp add: p_def)
      have "hd p \<in> set p" using ne by simp
      moreover have "set (tl p) \<subseteq> set p" using ne by (metis list.set_sel(2) subsetI)
      ultimately show ?thesis using bytes p high_not_plain by blast
    next
      case False
      then have p: "p = AppendRune (f c)" by (simp add: p_def)
      have "\<not> plain (hd p)"
      proof
        assume pl: "plain (hd p)"
        with AppendRune_plain [of "f c"] p have v: "f c = of_char (hd p)" by simp
        from pl plain_of_char v have "f c = 0x3A \<or> f c = 0x2F" by metis
        with assms(1) have "c = 0x3A \<or> c = 0x2F" by (auto simp: keepsPlain_def)
        with c show False by auto
      qed
      with AppendRune_plain [of "f c"] p show ?thesis by simp
    qed
  qed
  from eq ne w props show ?thesis by blast
qed

lemma mapRunes_Nil: "mapRunes f ch [] = []"
  by (subst mapRunes.simps) simp

lemma mapRunes_head:
  assumes "keepsPlain f" and "plain b" and "mapRunes f ch s = b # out"
  shows "\<exists>t ch'. s = b # t \<and> out = mapRunes f ch' t"
proof -
  from assms(3) have ne: "s \<noteq> []" by (auto simp: mapRunes_Nil)
  from mapRunes_step [OF assms(1) ne, of ch] obtain p w ch' where
    eq: "mapRunes f ch s = p @ mapRunes f ch' (drop w s)" and p: "p \<noteq> []"
    and pl: "plain (hd p) \<longrightarrow> w = 1 \<and> p = [hd s]"
    by blast
  from eq assms(3) p have "hd p = b" by (cases p) auto
  with pl assms(2) have w: "w = 1" and ps: "p = [hd s]" by simp_all
  from ps \<open>hd p = b\<close> have "hd s = b" by simp
  with ne have s: "s = b # tl s" by (cases s) auto
  from eq assms(3) ps w \<open>hd s = b\<close> have "out = mapRunes f ch' (tl s)"
    by (simp add: drop_Suc)
  with s show ?thesis by blast
qed

lemma mapRunes_separator:
  assumes "keepsPlain f" and "mapRunes f ch s = ''://'' @ post"
  shows "HasPrefix s ''://''"
proof -
  have pl: "plain (CHR '':'')" "plain (CHR ''/'')" by (simp_all add: plain_def)
  from assms(2) have "mapRunes f ch s = CHR '':'' # (''//'' @ post)" by simp
  from mapRunes_head [OF assms(1) pl(1) this] obtain t1 ch1 where
    s: "s = CHR '':'' # t1" and o1: "''//'' @ post = mapRunes f ch1 t1" by blast
  from o1 have "mapRunes f ch1 t1 = CHR ''/'' # (''/'' @ post)" by simp
  from mapRunes_head [OF assms(1) pl(2) this] obtain t2 ch2 where
    t1: "t1 = CHR ''/'' # t2" and o2: "''/'' @ post = mapRunes f ch2 t2" by blast
  from o2 have "mapRunes f ch2 t2 = CHR ''/'' # post" by simp
  from mapRunes_head [OF assms(1) pl(2) this] obtain t3 ch3 where
    t2: "t2 = CHR ''/'' # t3" by blast
  show ?thesis unfolding s t1 t2 by (simp add: HasPrefix_def)
qed

lemma mapRunes_Contains:
  assumes "keepsPlain f"
  shows "mapRunes f ch s = pre @ ''://'' @ post \<Longrightarrow> \<exists>i. Index s ''://'' = Some i"
proof (induction "length s" arbitrary: s ch pre rule: less_induct)
  case less
  from less.prems have ne: "s \<noteq> []" by (auto simp: mapRunes_Nil)
  show ?case
  proof (cases "pre = []")
    case True
    with less.prems have "HasPrefix s ''://''"
      using mapRunes_separator [OF assms] by simp
    with ne show ?thesis by (cases s) auto
  next
    case False
    from mapRunes_step [OF assms ne, of ch] obtain p w ch' where
      eq: "mapRunes f ch s = p @ mapRunes f ch' (drop w s)" and p: "p \<noteq> []"
      and w: "1 \<le> w" "w \<le> length s"
      and rest: "\<forall>b \<in> set (tl p). \<not> plain b"
      by blast
    have le: "length p \<le> length pre"
    proof (rule ccontr)
      assume "\<not> length p \<le> length pre"
      then have lt: "length pre < length p" by simp
      from False have pos: "0 < length pre" by simp
      have "(pre @ ''://'' @ post) ! length pre = CHR '':''"
        by (simp only: nth_append_length append.simps)
      with eq less.prems have "(p @ mapRunes f ch' (drop w s)) ! length pre = CHR '':''"
        by simp
      with lt have "p ! length pre = CHR '':''" by (simp add: nth_append)
      moreover have "p ! length pre \<in> set (tl p)"
      proof (cases p)
        case Nil
        with lt show ?thesis by simp
      next
        case (Cons a list)
        with lt False have "length pre - 1 < length list" by (cases pre) auto
        then have "list ! (length pre - 1) \<in> set list" by (rule nth_mem)
        with Cons pos show ?thesis by (simp add: nth_Cons')
      qed
      ultimately show False using rest by (auto simp: plain_def)
    qed
    from eq less.prems have "p @ mapRunes f ch' (drop w s) = pre @ ''://'' @ post" by simp
    with le have "mapRunes f ch' (drop w s) = drop (length p) pre @ ''://'' @ post"
      by (metis append_eq_append_conv_if append_eq_conv_conj)
    moreover have "length (drop w s) < length s" using w ne by (cases s) auto
    ultimately obtain i where i: "Index (drop w s) ''://'' = Some i"
      using less.hyps by blast
    from Index_HasPrefix [OF i] have "HasPrefix (drop (i + w) s) ''://''" by simp
    moreover from Index_bound [OF i] w have "i + w \<le> length s" by simp
    ultimately show ?thesis by (rule Index_found)
  qed
qed

text \<open>What the theorems ask of the table: no rune beyond ASCII has \<open>:\<close> or \<open>/\<close> as its lower case.\<close>

lemma keepsPlain_unicodeToLower:
  assumes "\<forall>r. 0x7F < r \<longrightarrow> table r \<noteq> 0x3A \<and> table r \<noteq> 0x2F"
  shows "keepsPlain (unicodeToLower table)"
  unfolding keepsPlain_def unicodeToLower_def using assms by auto

lemma ToLower_separator:
  assumes "\<forall>r. 0x7F < r \<longrightarrow> table r \<noteq> 0x3A \<and> table r \<noteq> 0x2F"
    and "ToLower table s = pre @ ''://'' @ post"
  shows "\<exists>i. Index s ''://'' = Some i"
proof (cases "list_all (\<lambda>c. c < CHR 0x80) s")
  case True
  with assms(2) have "map lowerByte s = pre @ ''://'' @ post"
    by (simp add: ToLower_def)
  with Index_middle [of pre "''://''" post] have "\<exists>i. Index (map lowerByte s) ''://'' = Some i"
    by simp
  then show ?thesis by (simp only: Index_lowerByte)
next
  case False
  with assms(2) have "mapRunes (unicodeToLower table) False s = pre @ ''://'' @ post"
    by (simp add: ToLower_def)
  with keepsPlain_unicodeToLower [OF assms(1)] show ?thesis
    by (rule mapRunes_Contains)
qed

lemma HasPrefix_same: "HasPrefix (p @ q) p"
  by (simp add: HasPrefix_def)

lemma HasPrefix_split: "HasPrefix s p \<Longrightarrow> s = p @ drop (length p) s"
  unfolding HasPrefix_def by (metis append_take_drop_id)

lemma schemeAllowed_split:
  "schemeAllowed table allowed it =
     (\<exists>sch \<in> allowed. \<exists>rest. ToLower table it = sch @ ''://'' @ rest)"
proof
  assume "schemeAllowed table allowed it"
  then obtain sch where "sch \<in> allowed" "HasPrefix (ToLower table it) (sch @ ''://'')"
    unfolding schemeAllowed_def by blast
  with HasPrefix_split [of "ToLower table it" "sch @ ''://''"] show
    "\<exists>sch \<in> allowed. \<exists>rest. ToLower table it = sch @ ''://'' @ rest"
    by (metis append.assoc)
next
  assume "\<exists>sch \<in> allowed. \<exists>rest. ToLower table it = sch @ ''://'' @ rest"
  then obtain sch rest where sch: "sch \<in> allowed"
    and "ToLower table it = (sch @ ''://'') @ rest"
    by auto
  moreover have "HasPrefix ((sch @ ''://'') @ rest) (sch @ ''://'')"
    by (rule HasPrefix_same)
  ultimately have "HasPrefix (ToLower table it) (sch @ ''://'')"
    by simp
  with sch show "schemeAllowed table allowed it"
    unfolding schemeAllowed_def by blast
qed

lemma schemeAllowed_Index:
  assumes "\<forall>r. 0x7F < r \<longrightarrow> table r \<noteq> 0x3A \<and> table r \<noteq> 0x2F"
    and "schemeAllowed table allowed it"
  shows "\<exists>i. Index it ''://'' = Some i"
proof -
  from assms(2) obtain sch rest where "ToLower table it = sch @ ''://'' @ rest"
    unfolding schemeAllowed_split by blast
  with assms(1) show ?thesis by (rule ToLower_separator)
qed

lemma filterItems_map:
  "filterItems table allowed out items =
     out @ map (normalizeScheme table)
       (filter (\<lambda>it. it \<noteq> [] \<and> \<not> reCommentLine it \<and> schemeAllowed table allowed it)
          (map TrimSpace items))"
  by (induction items arbitrary: out) (auto simp: Let_def)

text \<open>
  Where the first \<open>://\<close> of the emitted entry is: right after the lower-cased bytes before
  the first \<open>://\<close> of the item. The lower-case form of these bytes may be shorter or longer
  than they are.
\<close>

lemma Index_first: "Index s sep = Some i \<Longrightarrow> j < i \<Longrightarrow> \<not> HasPrefix (drop j s) sep"
proof (induction s arbitrary: i j)
  case Nil
  then show ?case by (simp split: if_splits)
next
  case (Cons c cs)
  from Cons.prems have no: "\<not> HasPrefix (c # cs) sep"
    by (auto split: if_splits)
  with Cons.prems obtain i' where i': "Index cs sep = Some i'" "i = Suc i'" by auto
  show ?case
  proof (cases j)
    case 0
    with no show ?thesis by simp
  next
    case (Suc j')
    with Cons.prems i' have "j' < i'" by simp
    from Cons.IH [OF i'(1) this] Suc show ?thesis by simp
  qed
qed

lemma Index_eq:
  "HasPrefix (drop i s) sep \<Longrightarrow> i \<le> length s \<Longrightarrow> \<forall>j<i. \<not> HasPrefix (drop j s) sep \<Longrightarrow>
   Index s sep = Some i"
proof (induction s arbitrary: i)
  case Nil
  then show ?case by (simp add: HasPrefix_def)
next
  case (Cons c cs)
  show ?case
  proof (cases i)
    case 0
    with Cons.prems show ?thesis by simp
  next
    case (Suc i')
    with Cons.prems have no: "\<not> HasPrefix (c # cs) sep"
      by (metis drop0 zero_less_Suc)
    have "\<forall>j<i'. \<not> HasPrefix (drop j cs) sep"
    proof (intro allI impI)
      fix j assume "j < i'"
      then have "Suc j < i" using Suc by simp
      with Cons.prems(3) have "\<not> HasPrefix (drop (Suc j) (c # cs)) sep" by blast
      then show "\<not> HasPrefix (drop j cs) sep" by simp
    qed
    with Cons.prems Suc have "Index cs sep = Some i'"
      by (intro Cons.IH) simp_all
    with no Suc show ?thesis by simp
  qed
qed

lemma HasPrefix_iff: "HasPrefix s p = (\<exists>r. s = p @ r)"
  unfolding HasPrefix_def by (metis append_eq_conv_conj append_take_drop_id)

text \<open>A \<open>://\<close> that starts in a text and ends in a \<open>://\<close> put after it: there is none.\<close>

lemma no_straddle:
  assumes "j < length L" and "length L < j + 3"
  shows "\<not> HasPrefix (drop j (L @ ''://'' @ R)) ''://''"
proof
  assume h: "HasPrefix (drop j (L @ ''://'' @ R)) ''://''"
  define d where "d = drop j L"
  have len: "length d = 1 \<or> length d = 2"
    unfolding d_def using assms by auto
  have "drop j (L @ ''://'' @ R) = d @ ''://'' @ R"
    unfolding d_def using assms by simp
  with h obtain r where t: "d @ ''://'' @ R = ''://'' @ r"
    unfolding HasPrefix_iff by auto
  from len show False
  proof
    assume "length d = 1"
    then obtain x where "d = [x]" by (cases d) auto
    with t show False by simp
  next
    assume "length d = 2"
    then obtain x y where "d = [x, y]" by (cases d; cases "tl d") auto
    with t show False by simp
  qed
qed

lemma normalizeScheme_position:
  assumes tab: "\<forall>r. 0x7F < r \<longrightarrow> table r \<noteq> 0x3A \<and> table r \<noteq> 0x2F"
    and i: "Index it ''://'' = Some i"
  shows "Index (normalizeScheme table it) ''://'' = Some (length (ToLower table (take i it)))"
proof -
  define L where "L = ToLower table (take i it)"
  from Index_HasPrefix [OF i] obtain R where R: "drop i it = ''://'' @ R"
    unfolding HasPrefix_iff by blast
  have e: "normalizeScheme table it = L @ ''://'' @ R"
    using i R by (simp add: normalizeScheme_def L_def)
  have here: "HasPrefix (drop (length L) (L @ ''://'' @ R)) ''://''"
    by (simp add: HasPrefix_def)
  have before: "\<forall>j<length L. \<not> HasPrefix (drop j (L @ ''://'' @ R)) ''://''"
  proof (intro allI impI)
    fix j assume j: "j < length L"
    show "\<not> HasPrefix (drop j (L @ ''://'' @ R)) ''://''"
    proof (cases "j + 3 \<le> length L")
      case False
      with j show ?thesis by (intro no_straddle) simp_all
    next
      case True
      show ?thesis
      proof
        assume "HasPrefix (drop j (L @ ''://'' @ R)) ''://''"
        then obtain r where r: "drop j L @ ''://'' @ R = ''://'' @ r"
          unfolding HasPrefix_iff using j by auto
        have "3 \<le> length (drop j L)" using True by simp
        then obtain x y z w where w: "drop j L = x # y # z # w"
          by (cases "drop j L"; cases "tl (drop j L)"; cases "tl (tl (drop j L))") auto
        with r have "drop j L = ''://'' @ w" by simp
        then have "L = take j L @ ''://'' @ w"
          by (metis append_take_drop_id)
        with tab obtain k where k: "Index (take i it) ''://'' = Some k"
          unfolding L_def using ToLower_separator by blast
        from Index_bound [OF k] have kl: "k + 3 \<le> length (take i it)"
          by simp
        from Index_HasPrefix [OF k] obtain q where q: "drop k (take i it) = ''://'' @ q"
          unfolding HasPrefix_iff by blast
        have "\<And>A B :: string. k \<le> length A \<Longrightarrow> drop k (A @ B) = drop k A @ B"
          by simp
        from this [of "take i it" "drop i it"] kl
        have "drop k it = drop k (take i it) @ drop i it"
          by (simp only: append_take_drop_id)
        with q have "HasPrefix (drop k it) ''://''"
          unfolding HasPrefix_iff by simp
        moreover from kl have "k < i" by simp
        ultimately show False using Index_first [OF i] by blast
      qed
    qed
  qed
  have "length L \<le> length (L @ ''://'' @ R)" by simp
  from Index_eq [OF here this before] show ?thesis
    unfolding e L_def by simp
qed

text \<open>Evaluating \<open>ToLower\<close> on a text with bytes of \<open>0x80\<close> and more.\<close>

lemma char_of_nat_eq: "(char_of (n::nat) = c) = (n mod 256 = of_char c)"
  by (simp add: char_of_eq_iff take_bit_eq_mod)

lemmas utf8_eval = ToLower_def mapRunes.simps DecodeRuneInString_def AppendRune_def
  unicodeToLower_def runeSize_def acceptLo_def acceptHi_def RuneError_def Let_def
  less_char_def less_eq_char_def char_of_nat_eq lowerByte_def

section \<open>Facts about base64\<close>

lemma indexByte_nth: "distinct xs \<Longrightarrow> i < length xs \<Longrightarrow> indexByte xs (xs ! i) = Some i"
proof (induction xs arbitrary: i)
  case Nil
  then show ?case by simp
next
  case (Cons x xs)
  show ?case
  proof (cases i)
    case 0
    then show ?thesis by simp
  next
    case (Suc j)
    with Cons.prems have "xs ! j \<noteq> x" "j < length xs" by auto
    with Cons Suc show ?thesis by auto
  qed
qed

lemma indexByte_Some: "indexByte xs c = Some v \<Longrightarrow> v < length xs \<and> xs ! v = c"
  by (induction xs arbitrary: v) (auto split: if_splits)

lemma distinct_encodeStd: "distinct encodeStd"
  unfolding encodeStd_def by simp

lemma length_encodeStd: "length encodeStd = 64"
  unfolding encodeStd_def by simp

lemma decodeMap_enc6: "decodeMap (enc6 v) = Some (v mod 64)"
  unfolding decodeMap_def enc6_def
  by (rule indexByte_nth) (simp_all add: distinct_encodeStd length_encodeStd)

lemma encodeStd_class: "\<forall>c \<in> set encodeStd. b64Class c \<and> \<not> isNewline c \<and> c \<noteq> CHR ''=''"
  unfolding encodeStd_def by code_simp

lemma decodeMap_Some: "decodeMap c = Some v \<Longrightarrow> b64Class c \<and> \<not> isNewline c \<and> c \<noteq> CHR ''='' \<and> v < 64"
proof -
  assume "decodeMap c = Some v"
  then have "v < length encodeStd \<and> encodeStd ! v = c"
    unfolding decodeMap_def by (rule indexByte_Some)
  then have "c \<in> set encodeStd" "v < 64"
    using length_encodeStd by (auto simp: in_set_conv_nth)
  with encodeStd_class show ?thesis by blast
qed

lemma decodeMap_pad: "decodeMap (CHR ''='') = None"
  by code_simp

lemma enc6_plain: "\<not> isNewline (enc6 v) \<and> enc6 v \<noteq> CHR ''='' \<and> b64Class (enc6 v)"
  using decodeMap_Some [OF decodeMap_enc6] by simp


lemma sextets_sum:
  fixes val :: nat
  assumes "val < 16777216"
  shows "val div 262144 mod 64 * 262144 + val div 4096 mod 64 * 4096 + val div 64 mod 64 * 64
         + val mod 64 = val"
proof -
  define q1 where "q1 = val div 64"
  define q2 where "q2 = q1 div 64"
  define q3 where "q3 = q2 div 64"
  define m0 where "m0 = val mod 64"
  define m1 where "m1 = q1 mod 64"
  define m2 where "m2 = q2 mod 64"
  have d2: "val div 4096 = q2"
    unfolding q2_def q1_def by (simp add: div_mult2_eq [symmetric])
  have d3: "val div 262144 = q3"
    unfolding q3_def q2_def q1_def by (simp add: div_mult2_eq [symmetric])
  have "val div 262144 < 64"
    using assms by (intro less_mult_imp_div_less) simp
  then have m3: "q3 mod 64 = q3"
    unfolding d3 by simp
  have e1: "val = q1 * 64 + m0"
    unfolding q1_def m0_def by simp
  have e2: "q1 = q2 * 64 + m1"
    unfolding q2_def m1_def by simp
  have e3: "q2 = q3 * 64 + m2"
    unfolding q3_def m2_def by simp
  have "q3 * 262144 + m2 * 4096 + m1 * 64 + m0 = val"
    using e1 e2 e3 by linarith
  then show ?thesis
    unfolding d2 d3 m3 m2_def m1_def m0_def q1_def [symmetric] .
qed

lemma bytes_of_val:
  fixes a b c :: nat
  assumes "a < 256" "b < 256" "c < 256"
  defines "val \<equiv> a * 65536 + b * 256 + c"
  shows "val div 65536 mod 256 = a" "val div 256 mod 256 = b" "val mod 256 = c"
    "val < 16777216"
proof -
  define k where "k = b + a * 256"
  have v: "val = c + k * 256"
    unfolding val_def k_def by simp
  show "val mod 256 = c"
    unfolding v using assms(3) by simp
  have d1: "val div 256 = k"
    unfolding v using assms(3) by simp
  show "val div 256 mod 256 = b"
    unfolding d1 k_def using assms(2) by simp
  have "val div 65536 = val div 256 div 256"
    by (simp add: div_mult2_eq [symmetric])
  also have "\<dots> = a"
    unfolding d1 k_def using assms(2) by simp
  finally show "val div 65536 mod 256 = a"
    using assms(1) by simp
  show "val < 16777216"
    unfolding val_def using assms by linarith
qed


lemma mod64_of_256: "(n * 256) mod 64 = (0::nat)"
proof -
  have "n * 256 = (n * 4) * 64" by simp
  then show ?thesis by (simp only: mod_mult_self2_is_0)
qed

lemma div64_of_65536: "(n * 65536) div 64 mod 64 = (0::nat)"
proof -
  have "n * 65536 = (n * 1024) * 64" by simp
  then have "(n * 65536) div 64 = (n * 16) * 64" by simp
  then show ?thesis by (simp only: mod_mult_self2_is_0)
qed

lemma quantum_4:
  "quantum [d0, d1, d2, d3] 4 =
     [char_of ((d0 * 262144 + d1 * 4096 + d2 * 64 + d3) div 65536),
      char_of ((d0 * 262144 + d1 * 4096 + d2 * 64 + d3) div 256),
      char_of (d0 * 262144 + d1 * 4096 + d2 * 64 + d3)]"
  by (simp add: quantum_def Let_def)

lemma quantum_3:
  "quantum [d0, d1, d2] 3 =
     [char_of ((d0 * 262144 + d1 * 4096 + d2 * 64 + 0) div 65536),
      char_of ((d0 * 262144 + d1 * 4096 + d2 * 64 + 0) div 256)]"
  by (simp add: quantum_def Let_def numeral_3_eq_3)

lemma quantum_2:
  "quantum [d0, d1] 2 = [char_of ((d0 * 262144 + d1 * 4096 + 0 * 64 + 0) div 65536)]"
  by (simp add: quantum_def Let_def numeral_2_eq_2)

lemma char_of_eq_mod: "(n::nat) mod 256 = of_char c \<Longrightarrow> char_of n = c"
  by (metis char_of_char char_of_mod_256)

lemma quantum_full:
  fixes x y z :: char
  defines "val \<equiv> (of_char x :: nat) * 65536 + of_char y * 256 + of_char z"
  shows "quantum [val div 262144 mod 64, val div 4096 mod 64, val div 64 mod 64, val mod 64] 4
         = [x, y, z]"
proof -
  have b: "(of_char x :: nat) < 256" "(of_char y :: nat) < 256" "(of_char z :: nat) < 256"
    by simp_all
  note bv = bytes_of_val [OF b, folded val_def]
  have "char_of (val div 65536) = x" "char_of (val div 256) = y" "char_of val = z"
    using bv by (auto intro: char_of_eq_mod)
  then show ?thesis
    unfolding quantum_4 sextets_sum [OF bv(4)] by simp
qed

lemma quantum_two_bytes:
  fixes x y :: char
  defines "val \<equiv> (of_char x :: nat) * 65536 + of_char y * 256"
  shows "quantum [val div 262144 mod 64, val div 4096 mod 64, val div 64 mod 64] 3 = [x, y]"
proof -
  have b: "(of_char x :: nat) < 256" "(of_char y :: nat) < 256" "(0::nat) < 256"
    by simp_all
  have v0: "val = of_char x * 65536 + of_char y * 256 + 0" unfolding val_def by simp
  note bv = bytes_of_val [OF b, folded v0]
  have "val = (of_char x * 256 + of_char y) * 256" unfolding val_def by simp
  then have m0: "val mod 64 = 0" by (simp only: mod64_of_256)
  from sextets_sum [OF bv(4)]
  have sum: "val div 262144 mod 64 * 262144 + val div 4096 mod 64 * 4096 + val div 64 mod 64 * 64 + 0
      = val" unfolding m0 .
  have "char_of (val div 65536) = x" "char_of (val div 256) = y"
    using bv by (auto intro: char_of_eq_mod)
  then show ?thesis
    unfolding quantum_3 sum by simp
qed

lemma quantum_one_byte:
  fixes x :: char
  defines "val \<equiv> (of_char x :: nat) * 65536"
  shows "quantum [val div 262144 mod 64, val div 4096 mod 64] 2 = [x]"
proof -
  have b: "(of_char x :: nat) < 256" "(0::nat) < 256" "(0::nat) < 256"
    by simp_all
  have v0: "val = of_char x * 65536 + 0 * 256 + 0" unfolding val_def by simp
  note bv = bytes_of_val [OF b, folded v0]
  have "val = (of_char x * 256) * 256" unfolding val_def by simp
  then have m0: "val mod 64 = 0" by (simp only: mod64_of_256)
  have m1: "val div 64 mod 64 = 0" unfolding val_def by (rule div64_of_65536)
  from sextets_sum [OF bv(4)]
  have sum: "val div 262144 mod 64 * 262144 + val div 4096 mod 64 * 4096 + 0 * 64 + 0
      = val" unfolding m0 m1 .
  have "char_of (val div 65536) = x"
    using bv by (auto intro: char_of_eq_mod)
  then show ?thesis
    unfolding quantum_2 sum by simp
qed

lemma decodeFrom_enc6:
  "decodeFrom dbuf (enc6 v # src) =
     (if length dbuf = 3
      then map_option ((@) (quantum (dbuf @ [v mod 64]) 4)) (decodeFrom [] src)
      else decodeFrom (dbuf @ [v mod 64]) src)"
  by (simp add: decodeMap_enc6)

lemma decodeFrom_pad1: "decodeFrom [d0, d1, d2] ''='' = Some (quantum [d0, d1, d2] 3)"
  by (simp add: decodeMap_pad isNewline_def)

lemma decodeFrom_pad2: "decodeFrom [d0, d1] ''=='' = Some (quantum [d0, d1] 2)"
  by (simp add: decodeMap_pad isNewline_def)

lemma Decode_Encode: "DecodeString (EncodeToString p) = Some p"
  unfolding DecodeString_def
proof (induction p rule: EncodeToString.induct)
  case 1
  show ?case by simp
next
  case (2 a)
  show ?case
    by (simp only: EncodeToString.simps Let_def decodeFrom_enc6 decodeFrom_pad2
        quantum_one_byte list.size append.simps) simp
next
  case (3 a b)
  show ?case
    by (simp only: EncodeToString.simps Let_def decodeFrom_enc6 decodeFrom_pad1
        quantum_two_bytes list.size append.simps) simp
next
  case (4 a b c src)
  have "decodeFrom [] (EncodeToString (a # b # c # src)) =
      map_option ((@) [a, b, c]) (decodeFrom [] (EncodeToString src))"
    by (simp only: EncodeToString.simps Let_def decodeFrom_enc6 
        quantum_full list.size append.simps) simp
  with 4 show ?case by simp
qed

lemma decodeMap_newline: "isNewline c \<Longrightarrow> decodeMap c = None"
  using decodeMap_Some by (cases "decodeMap c") auto

lemma newline_class: "isNewline c \<Longrightarrow> b64Class c"
  by (auto simp: isNewline_def b64Class_def)

lemma only_newlines: "(dropWhile isNewline s = []) = (\<forall>c \<in> set s. isNewline c)"
  by (simp add: dropWhile_eq_Nil_conv)

lemma dropWhile_filter_newline:
  assumes "\<forall>c. \<not> Q c \<longrightarrow> isNewline c"
  shows "dropWhile isNewline (filter Q s) = filter Q (dropWhile isNewline s)"
  using assms by (induction s) auto

lemma only_newlines_filter:
  assumes "\<forall>c. \<not> Q c \<longrightarrow> isNewline c"
  shows "(dropWhile isNewline (filter Q s) = []) = (dropWhile isNewline s = [])"
  unfolding only_newlines using assms by auto

lemma decodeFrom_filter:
  assumes Q: "\<forall>c. \<not> Q c \<longrightarrow> isNewline c"
  shows "decodeFrom dbuf (filter Q s) = decodeFrom dbuf s"
proof (induction s arbitrary: dbuf)
  case Nil
  show ?case by simp
next
  case (Cons c src)
  show ?case
  proof (cases "Q c")
    case False
    then have "isNewline c" using Q by simp
    with False Cons.IH show ?thesis
      by (simp add: decodeMap_newline)
  next
    case True
    note tail = only_newlines_filter [of Q, OF Q]
    have pad2:
      "(case dropWhile isNewline (filter Q src) of
          [] \<Rightarrow> None
        | p # after \<Rightarrow>
            if p \<noteq> CHR ''='' then None
            else if dropWhile isNewline after \<noteq> [] then None
            else Some (quantum dbuf 2)) =
       (case dropWhile isNewline src of
          [] \<Rightarrow> None
        | p # after \<Rightarrow>
            if p \<noteq> CHR ''='' then None
            else if dropWhile isNewline after \<noteq> [] then None
            else Some (quantum dbuf 2))"
    proof (cases "dropWhile isNewline src")
      case Nil
      have "dropWhile isNewline (filter Q src) = []"
        using Nil by (simp only: tail)
      with Nil show ?thesis by (simp only: list.case)
    next
      case (Cons p after)
      then have "\<not> isNewline p"
        by (metis hd_dropWhile list.sel(1) list.distinct(1))
      then have "Q p" using Q by blast
      have "dropWhile isNewline (filter Q src) = filter Q (p # after)"
        using Cons dropWhile_filter_newline [of Q src, OF Q] by (simp only:)
      then have "dropWhile isNewline (filter Q src) = p # filter Q after"
        using \<open>Q p\<close> by simp
      with Cons show ?thesis
        by (simp only: list.case tail)
    qed
    show ?thesis
      by (simp only: filter.simps True if_True decodeFrom.simps Cons.IH pad2 tail)
  qed
qed

lemma length_quantum: "length (quantum dbuf n) \<le> n - 1"
  by (simp add: quantum_def Let_def)

lemma decodeFrom_class: "decodeFrom dbuf s = Some d \<Longrightarrow> list_all b64Class s"
proof (induction s arbitrary: dbuf d)
  case Nil
  show ?case by simp
next
  case (Cons c src)
  show ?case
  proof (cases "decodeMap c")
    case (Some v)
    then have "b64Class c" using decodeMap_Some by blast
    moreover from Cons.prems Some have "\<exists>dbuf' d'. decodeFrom dbuf' src = Some d'"
      by (auto split: if_splits)
    ultimately show ?thesis using Cons.IH by auto
  next
    case None
    show ?thesis
    proof (cases "isNewline c")
      case True
      with None Cons show ?thesis by (auto simp: newline_class)
    next
      case False
      with None Cons.prems have c: "c = CHR ''=''" and j: "\<not> length dbuf < 2"
        by (auto split: if_splits)
      have "\<forall>x \<in> set src. b64Class x"
      proof (cases "length dbuf = 2")
        case True
        with None False c Cons.prems obtain p after where
          dw: "dropWhile isNewline src = p # after" and p: "p = CHR ''=''"
          and rest: "dropWhile isNewline after = []"
          by (auto split: list.splits if_splits)
        have "src = takeWhile isNewline src @ p # after"
          using dw by (metis takeWhile_dropWhile_id)
        moreover have "\<forall>x \<in> set (takeWhile isNewline src). isNewline x"
          by (auto dest: set_takeWhileD)
        moreover have "\<forall>x \<in> set after. isNewline x"
          using rest by (simp add: only_newlines)
        moreover have "b64Class p" unfolding p by (simp add: b64Class_def)
        ultimately show ?thesis
          by (metis newline_class Un_iff set_ConsD set_append)
      next
        case not2: False
        with None False c j Cons.prems have "dropWhile isNewline src = []"
          by (auto split: if_splits)
        then show ?thesis by (auto simp: only_newlines newline_class)
      qed
      moreover have "b64Class c" unfolding c by (simp add: b64Class_def)
      ultimately show ?thesis by (simp add: list_all_iff)
    qed
  qed
qed

lemma decodeFrom_length:
  "decodeFrom dbuf s = Some d \<Longrightarrow> 4 * length d \<le> 3 * (length dbuf + length s)"
proof (induction s arbitrary: dbuf d)
  case Nil
  then show ?case by (simp split: if_splits)
next
  case (Cons c src)
  show ?case
  proof (cases "decodeMap c")
    case (Some v)
    show ?thesis
    proof (cases "length dbuf = 3")
      case True
      with Some Cons.prems obtain d' where d': "decodeFrom [] src = Some d'"
        and d: "d = quantum (dbuf @ [v]) 4 @ d'"
        by auto
      from Cons.IH [OF d'] length_quantum [of "dbuf @ [v]" 4] True
      show ?thesis unfolding d by simp
    next
      case False
      with Some Cons.prems have "decodeFrom (dbuf @ [v]) src = Some d" by simp
      from Cons.IH [OF this] show ?thesis by simp
    qed
  next
    case None
    show ?thesis
    proof (cases "isNewline c")
      case True
      with None Cons.prems have "decodeFrom dbuf src = Some d" by simp
      from Cons.IH [OF this] show ?thesis by simp
    next
      case False
      with None Cons.prems have j: "\<not> length dbuf < 2"
        by (auto split: if_splits)
      from None False Cons.prems j have "d = quantum dbuf 2 \<or> d = quantum dbuf 3"
        by (auto split: if_splits list.splits)
      then have "length d \<le> 2"
        using length_quantum [of dbuf 2] length_quantum [of dbuf 3] by auto
      with j show ?thesis by simp
    qed
  qed
qed

section \<open>Facts about the decoder\<close>

lemma Decode_stripLF: "DecodeString (stripLF s) = DecodeString s"
  unfolding DecodeString_def stripLF_def
  by (rule decodeFrom_filter) (simp add: isNewline_def)

lemma Decode_stripNewlines: "DecodeString (stripNewlines s) = DecodeString s"
  unfolding DecodeString_def stripNewlines_def
  by (rule decodeFrom_filter) simp

lemma Decode_class: "DecodeString s = Some dec \<Longrightarrow> s \<noteq> [] \<Longrightarrow> rePossibleB64 s"
  unfolding DecodeString_def rePossibleB64_def
  by (simp add: decodeFrom_class)

lemma tryDecode_success:
  assumes "TrimSpace b \<noteq> []" and "DecodeString (TrimSpace b) = Some dec"
  shows "tryDecodeIfBase64 table b = (if hasScheme table dec then dec else b)"
  using assms Decode_class [OF assms(2) assms(1)]
  by (simp add: tryDecodeIfBase64_def decodeAttempts_def Let_def)

lemma Decode_shorter:
  assumes "DecodeString s = Some dec" and "s \<noteq> []"
  shows "length dec < length s"
proof -
  from assms(1) have "4 * length dec \<le> 3 * (length ([] :: nat list) + length s)"
    unfolding DecodeString_def by (rule decodeFrom_length)
  then have "4 * length dec \<le> 3 * length s" by simp
  moreover from assms(2) have "0 < length s" by simp
  ultimately show ?thesis by linarith
qed

lemma hasScheme_nonempty: "hasScheme table p \<Longrightarrow> p \<noteq> []"
  by (auto simp: hasScheme_def ToLower_def Contains_def)

lemma tryDecode_failure:
  assumes "rePossibleB64 (TrimSpace b)" and "DecodeString (TrimSpace b) = None"
  shows "decodeAttempts (TrimSpace b) = ([TrimSpace b, stripLF (TrimSpace b)], None) \<and>
         tryDecodeIfBase64 table b = b"
proof -
  from assms(2) have "DecodeString (stripLF (TrimSpace b)) = None"
    by (simp only: Decode_stripLF)
  with assms(2) have d: "decodeAttempts (TrimSpace b) = ([TrimSpace b, stripLF (TrimSpace b)], None)"
    by (simp add: decodeAttempts_def)
  moreover from assms(1) have "TrimSpace b \<noteq> []"
    by (simp add: rePossibleB64_def)
  ultimately show ?thesis
    using assms(1) by (simp add: tryDecodeIfBase64_def Let_def)
qed

lemma Encode_nonempty: "p \<noteq> [] \<Longrightarrow> EncodeToString p \<noteq> []"
  by (induction p rule: EncodeToString.induct) (simp_all add: Let_def)

section \<open>Facts about the writer and the round trip\<close>

lemma Split_no_sep: "sep \<notin> set x \<Longrightarrow> Split x sep = [x]"
  by (induction x) auto

lemma Split_append_sep: "sep \<notin> set x \<Longrightarrow> Split (x @ sep # rest) sep = x # Split rest sep"
  by (induction x) auto

lemma Split_Join:
  "lines \<noteq> [] \<Longrightarrow> \<forall>s \<in> set lines. sep \<notin> set s \<Longrightarrow> Split (Join lines [sep]) sep = lines"
proof (induction lines "[sep]" rule: Join.induct)
  case 1
  then show ?case by simp
next
  case (2 x)
  then show ?case by (simp add: Split_no_sep)
next
  case (3 x y zs)
  then show ?case by (simp add: Split_append_sep)
qed

lemma renameLoop_success:
  "renameLoop os tmpPath path i trace st = (tr, None) \<Longrightarrow> tmpPath \<noteq> path \<Longrightarrow>
   last tr path = st tmpPath"
proof (induction os tmpPath path i trace st rule: renameLoop.induct)
  case (1 os tmpPath path i trace st)
  show ?case
  proof (cases "i < maxRetries")
    case False
    with "1.prems" show ?thesis by (subst (asm) renameLoop.simps) simp
  next
    case True
    define st1 where "st1 = (if removeOk os i then st(path := None) else st)"
    have st1: "st1 tmpPath = st tmpPath"
      unfolding st1_def using "1.prems"(2) by simp
    show ?thesis
    proof (cases "renameResult os i")
      case RenameOk
      with "1.prems" True st1 show ?thesis
        by (subst (asm) renameLoop.simps) (auto simp: Let_def st1_def)
    next
      case RenameBusy
      show ?thesis
      proof (cases "i < maxRetries - 1")
        case more: True
        with "1.prems" True RenameBusy
        have "renameLoop os tmpPath path (Suc i) (trace @ [st]) st1 = (tr, None)"
          by (subst (asm) renameLoop.simps) (simp add: Let_def st1_def)
        from "1.IH" [OF True st1_def RenameBusy more this "1.prems"(2)] st1
        show ?thesis by simp
      next
        case False
        with "1.prems" True RenameBusy show ?thesis
          by (subst (asm) renameLoop.simps) (simp add: Let_def)
      qed
    next
      case RenameOther
      with "1.prems" True show ?thesis
        by (subst (asm) renameLoop.simps) (simp add: Let_def)
    qed
  qed
qed

lemma writeBase64Atomic_success:
  assumes "writeBase64Atomic os st0 path lines = (tr, None)" and "tempName os \<noteq> Some path"
  shows "last tr path = Some (encodePayload lines)"
proof -
  from assms(1) obtain tmpPath where tmp: "tempName os = Some tmpPath"
    by (cases "tempName os") (auto simp: writeBase64Atomic_def Let_def)
  with assms(2) have ne: "tmpPath \<noteq> path" by simp
  let ?st3 = "(st0(tmpPath \<mapsto> [], tmpPath \<mapsto> take (length (encodePayload lines) - held os) (encodePayload lines),
      tmpPath \<mapsto> encodePayload lines))"
  from assms(1) tmp obtain trace where
    "renameLoop os tmpPath path 0 trace ?st3 = (tr, None)"
    by (auto simp: writeBase64Atomic_def Let_def split: if_splits)
  from renameLoop_success [OF this ne] show ?thesis by simp
qed

lemma sort_two: "sort [''vmess://xyz'', ''ss://abc''] = [''ss://abc'', ''vmess://xyz'']"
  by code_simp

lemma payload_one: "encodePayload [''ss://a''] = ''c3M6Ly9h''"
  by (simp add: encodePayload_def enc6_def encodeStd_def Let_def)

text \<open>
  What the final path holds in any state of a write: what it held before, nothing, or the
  complete new payload (which is the empty text when there are no lines). It never holds a
  part of a payload.
\<close>

lemma renameLoop_observed:
  assumes "Q None"
  shows "tmpPath \<noteq> path \<Longrightarrow> \<forall>s \<in> set trace. Q (s path) \<Longrightarrow> Q (st path) \<Longrightarrow>
         Q (st tmpPath) \<Longrightarrow>
         \<forall>s \<in> set (fst (renameLoop os tmpPath path i trace st)). Q (s path)"
proof (induction os tmpPath path i trace st rule: renameLoop.induct)
  case (1 os tmpPath path i trace st)
  note ne = \<open>tmpPath \<noteq> path\<close>
  define st1 where "st1 = (if removeOk os i then st(path := None) else st)"
  have st1: "Q (st1 path)" "Q (st1 tmpPath)"
    unfolding st1_def using "1.prems" assms ne by auto
  show ?case
  proof (cases "i < maxRetries")
    case False
    with "1.prems" ne show ?thesis
      by (subst renameLoop.simps) auto
  next
    case True
    show ?thesis
    proof (cases "renameResult os i")
      case RenameOk
      with True "1.prems" st1 ne show ?thesis
        by (subst renameLoop.simps) (auto simp: Let_def st1_def)
    next
      case RenameBusy
      show ?thesis
      proof (cases "i < maxRetries - 1")
        case more: True
        have "\<forall>s \<in> set (trace @ [st]). Q (s path)"
          using "1.prems" by simp
        from "1.IH" [OF True st1_def RenameBusy more ne this st1]
        show ?thesis
          using True RenameBusy more
          by (subst renameLoop.simps) (simp add: Let_def st1_def)
      next
        case False
        with True RenameBusy "1.prems" st1 ne show ?thesis
          by (subst renameLoop.simps) (auto simp: Let_def st1_def)
      qed
    next
      case RenameOther
      with True "1.prems" st1 ne show ?thesis
        by (subst renameLoop.simps) (auto simp: Let_def st1_def)
    qed
  qed
qed

lemma final_path_never_partial:
  assumes "tempName os \<noteq> Some path"
  shows "\<forall>s \<in> set (fst (writeBase64Atomic os st0 path lines)).
           s path = st0 path \<or> s path = None \<or> s path = Some (encodePayload lines)"
proof (cases "tempName os")
  case None
  then show ?thesis by (simp add: writeBase64Atomic_def)
next
  case (Some tmpPath)
  with assms have ne: "tmpPath \<noteq> path" by simp
  define enc where "enc = encodePayload lines"
  define Q where "Q = (\<lambda>x. x = st0 path \<or> x = None \<or> x = Some enc)"
  define st1 where "st1 = st0(tmpPath \<mapsto> [])"
  define st2 where "st2 = st1(tmpPath \<mapsto> take (length enc - held os) enc)"
  define st3 where "st3 = st2(tmpPath \<mapsto> enc)"
  have early: "Q (st0 path)" "Q (st1 path)" "Q (st2 path)" "Q (st3 path)" "Q (st3 tmpPath)"
    "Q ((st1(tmpPath := None)) path)" "Q ((st2(tmpPath := None)) path)"
    "Q ((st3(tmpPath := None)) path)"
    unfolding Q_def st1_def st2_def st3_def using ne by simp_all
  have "Q None" unfolding Q_def by simp
  from renameLoop_observed [of Q tmpPath path "[st0, st1, st2]" st3 os 0, OF this ne]
  have loop: "\<forall>s \<in> set (fst (renameLoop os tmpPath path 0 [st0, st1, st2] st3)). Q (s path)"
    using early by simp
  have "\<forall>s \<in> set (fst (writeBase64Atomic os st0 path lines)). Q (s path)"
    unfolding writeBase64Atomic_def Let_def Some
    using early loop
    by (simp add: enc_def [symmetric] st1_def [symmetric] st2_def [symmetric]
        st3_def [symmetric])
  then show ?thesis
    unfolding Q_def enc_def .
qed

section \<open>The claims\<close>

text \<open>
  In every theorem below \<open>table\<close> is the lower-case mapping of the runes above \<open>0x7F\<close>;
  a theorem that names no condition on it holds for every mapping.
\<close>

text \<open>
  C1. The specification says that a line holding \<open>://\<close> more than once is split into one
  segment per scheme, each from the start of its scheme token up to the start of the next
  one, so that \<open>vless://A vmess://B\<close> gives \<open>vless://A\<close> and \<open>vmess://B\<close>. The code
  does not do that. It searches the next \<open>://\<close> from \<open>rest[3:]\<close>, three bytes after the
  start of the scheme token and not after the \<open>://\<close> it has just found, and it cuts at
  the \<open>://\<close> itself and not at the start of the letters before it. On this line it cuts
  three pieces, none of which starts with a scheme and \<open>://\<close>, and the filter then drops
  all of them: both URIs are lost.
\<close>

theorem splitPossible_cuts_at_separator:
  "splitPossible ''vless://A vmess://B'' = [''vless'', ''://A vmess'', ''://B''] \<and>
   parseAndFilterLines table ''vless://A vmess://B'' {''vless'', ''vmess'', ''ss''} = []"
proof
  show "splitPossible ''vless://A vmess://B'' = [''vless'', ''://A vmess'', ''://B'']"
    by code_simp
  show "parseAndFilterLines table ''vless://A vmess://B'' {''vless'', ''vmess'', ''ss''} = []"
    unfolding parseAndFilterLines_def scan_one_line by code_simp
qed

text \<open>
  C2. The claim: a configuration that sets the lite block's \<open>n\<close> to a positive \<open>k\<close> gives
  every source a tail of \<open>min k (length normal)\<close> entries. It fails: \<open>main\<close> calls
  \<open>buildLiteTail(normal, 100)\<close> with the constant 100 and never reads \<open>cfg.Lite.N\<close>.
  With \<open>n = 1\<close> and two entries the tail has two entries, not one.
\<close>

theorem lite_ignores_n_counterexample:
  "\<forall>table. length (snd (mainBody table (loadConfigDefaults
      \<lparr>AllowedSchemes = [], Lite = \<lparr>Strategy = [], MaxTotal = 0, PerHostLimit = 0, N = 1\<rparr>,
        Subscriptions = []\<rparr>) ''ss://a\<newline>ss://b''))
   \<noteq> min (nat (N (Lite (loadConfigDefaults
      \<lparr>AllowedSchemes = [], Lite = \<lparr>Strategy = [], MaxTotal = 0, PerHostLimit = 0, N = 1\<rparr>,
        Subscriptions = []\<rparr>))))
     (length (fst (mainBody table (loadConfigDefaults
      \<lparr>AllowedSchemes = [], Lite = \<lparr>Strategy = [], MaxTotal = 0, PerHostLimit = 0, N = 1\<rparr>,
        Subscriptions = []\<rparr>) ''ss://a\<newline>ss://b'')))"
proof
  fix table
  show "length (snd (mainBody table (loadConfigDefaults
      \<lparr>AllowedSchemes = [], Lite = \<lparr>Strategy = [], MaxTotal = 0, PerHostLimit = 0, N = 1\<rparr>,
        Subscriptions = []\<rparr>) ''ss://a\<newline>ss://b''))
   \<noteq> min (nat (N (Lite (loadConfigDefaults
      \<lparr>AllowedSchemes = [], Lite = \<lparr>Strategy = [], MaxTotal = 0, PerHostLimit = 0, N = 1\<rparr>,
        Subscriptions = []\<rparr>))))
     (length (fst (mainBody table (loadConfigDefaults
      \<lparr>AllowedSchemes = [], Lite = \<lparr>Strategy = [], MaxTotal = 0, PerHostLimit = 0, N = 1\<rparr>,
        Subscriptions = []\<rparr>) ''ss://a\<newline>ss://b'')))"
    unfolding mainBody_def Let_def parseAndFilterLines_def plain_two_lines scan_two_lines
    by code_simp
qed

text \<open>
  C2, as amended: whatever the configuration says, also about \<open>n\<close>, the lite list of a
  source is the last \<open>min 100 (length normal)\<close> entries of its normal list, in their order.
\<close>

theorem mainBody_lite_last_100:
  "snd (mainBody table cfg raw) =
     drop (length (fst (mainBody table cfg raw)) - min 100 (length (fst (mainBody table cfg raw))))
       (fst (mainBody table cfg raw)) \<and>
   length (snd (mainBody table cfg raw)) = min 100 (length (fst (mainBody table cfg raw)))"
  unfolding mainBody_def Let_def
  by (simp add: buildLiteTail_drop)

text \<open>
  C3. The claim: when the first decoding of a payload that passes the character-class
  check fails, the decoder decodes again after stripping all newline characters, the
  carriage returns as well as the line feeds. It fails: \<open>strings.ReplaceAll(trim, "\n", "")\<close>
  deletes the line feeds only. The payload \<open>Y\<close>, carriage return, line feed, \<open>Q\<close> passes
  the check and its first decoding fails; the text that is decoded next is \<open>Y\<close>, carriage
  return, \<open>Q\<close>: the carriage return is still there, and the text is not \<open>YQ\<close>, the payload
  without its newline characters.
\<close>

theorem retry_keeps_carriage_return_counterexample:
  "rePossibleB64 (TrimSpace (''Y'' @ [CHR 0x0D, CHR 0x0A] @ ''Q'')) \<and>
   DecodeString (TrimSpace (''Y'' @ [CHR 0x0D, CHR 0x0A] @ ''Q'')) = None \<and>
   fst (decodeAttempts (TrimSpace (''Y'' @ [CHR 0x0D, CHR 0x0A] @ ''Q''))) =
     [[CHR ''Y'', CHR 0x0D, CHR 0x0A, CHR ''Q''], [CHR ''Y'', CHR 0x0D, CHR ''Q'']] \<and>
   stripNewlines (TrimSpace (''Y'' @ [CHR 0x0D, CHR 0x0A] @ ''Q'')) = ''YQ'' \<and>
   fst (decodeAttempts (TrimSpace (''Y'' @ [CHR 0x0D, CHR 0x0A] @ ''Q'')))
     \<noteq> [TrimSpace (''Y'' @ [CHR 0x0D, CHR 0x0A] @ ''Q''),
         stripNewlines (TrimSpace (''Y'' @ [CHR 0x0D, CHR 0x0A] @ ''Q''))]"
proof -
  have t: "TrimSpace (''Y'' @ [CHR 0x0D, CHR 0x0A] @ ''Q'') = [CHR ''Y'', CHR 0x0D, CHR 0x0A, CHR ''Q'']"
    by code_simp
  have c: "rePossibleB64 [CHR ''Y'', CHR 0x0D, CHR 0x0A, CHR ''Q'']"
    by code_simp
  have d: "DecodeString [CHR ''Y'', CHR 0x0D, CHR 0x0A, CHR ''Q''] = None"
    by (simp add: DecodeString_def decodeMap_def encodeStd_def isNewline_def)
  have l: "stripLF [CHR ''Y'', CHR 0x0D, CHR 0x0A, CHR ''Q''] = [CHR ''Y'', CHR 0x0D, CHR ''Q'']"
    by (simp add: stripLF_def)
  have n: "stripNewlines [CHR ''Y'', CHR 0x0D, CHR 0x0A, CHR ''Q''] = ''YQ''"
    by (simp add: stripNewlines_def isNewline_def)
  have a: "fst (decodeAttempts [CHR ''Y'', CHR 0x0D, CHR 0x0A, CHR ''Q'']) =
      [[CHR ''Y'', CHR 0x0D, CHR 0x0A, CHR ''Q''], [CHR ''Y'', CHR 0x0D, CHR ''Q'']]"
    by (simp add: decodeAttempts_def d l)
  show ?thesis
    unfolding t a n using c d by simp
qed

text \<open>
  C3, as amended: when the first decoding of a payload that passes the character-class
  check fails, the decoder decodes once more, the payload without its line feeds; the
  carriage returns stay. \<open>DecodeString\<close> itself skips every carriage return and every line
  feed, so this second decoding fails as well, and the decoder returns the original bytes.
  A payload whose text without the newline characters is the base64 encoding of a text
  \<open>p\<close> with one of the three scheme markers is decoded to \<open>p\<close>, and it is the first
  decoding, the only one then, that decodes it: so valid base64 wrapped in CRLF line
  breaks is decoded.
\<close>

theorem retry_strips_line_feeds_only:
  "(rePossibleB64 (TrimSpace b) \<and> DecodeString (TrimSpace b) = None \<longrightarrow>
      decodeAttempts (TrimSpace b) = ([TrimSpace b, stripLF (TrimSpace b)], None) \<and>
      tryDecodeIfBase64 table b = b) \<and>
   (hasScheme table p \<and> stripNewlines (TrimSpace b) = EncodeToString p \<longrightarrow>
      decodeAttempts (TrimSpace b) = ([TrimSpace b], Some p) \<and>
      tryDecodeIfBase64 table b = p)"
proof (rule conjI; rule impI)
  assume "rePossibleB64 (TrimSpace b) \<and> DecodeString (TrimSpace b) = None"
  then show "decodeAttempts (TrimSpace b) = ([TrimSpace b, stripLF (TrimSpace b)], None) \<and>
      tryDecodeIfBase64 table b = b"
    using tryDecode_failure by blast
next
  assume a: "hasScheme table p \<and> stripNewlines (TrimSpace b) = EncodeToString p"
  then have "EncodeToString p \<noteq> []"
    using hasScheme_nonempty Encode_nonempty by blast
  with a have ne: "TrimSpace b \<noteq> []"
    by (auto simp: stripNewlines_def)
  have "DecodeString (TrimSpace b) = DecodeString (stripNewlines (TrimSpace b))"
    by (simp only: Decode_stripNewlines)
  also have "\<dots> = Some p"
    using a by (simp add: Decode_Encode)
  finally have d: "DecodeString (TrimSpace b) = Some p" .
  then have "decodeAttempts (TrimSpace b) = ([TrimSpace b], Some p)"
    by (simp add: decodeAttempts_def)
  moreover from ne d have "tryDecodeIfBase64 table b = (if hasScheme table p then p else b)"
    by (intro tryDecode_success)
  ultimately show "decodeAttempts (TrimSpace b) = ([TrimSpace b], Some p) \<and>
      tryDecodeIfBase64 table b = p"
    using a by simp
qed

text \<open>
  The payload of the counterexample is decoded twice, the second time with its carriage
  return, and returned as it is; the base64 text of \<open>vless://a\<close>, broken by CRLF after
  every four characters, is decoded.
\<close>

theorem retry_strips_line_feeds_only_witness:
  "\<forall>table.
     fst (decodeAttempts (TrimSpace (''Y'' @ [CHR 0x0D, CHR 0x0A] @ ''Q''))) =
       [[CHR ''Y'', CHR 0x0D, CHR 0x0A, CHR ''Q''], [CHR ''Y'', CHR 0x0D, CHR ''Q'']] \<and>
     tryDecodeIfBase64 table (''Y'' @ [CHR 0x0D, CHR 0x0A] @ ''Q'') = ''Y'' @ [CHR 0x0D, CHR 0x0A] @ ''Q'' \<and>
     tryDecodeIfBase64 table
       (''dmxl'' @ [CHR 0x0D, CHR 0x0A] @ ''c3M6'' @ [CHR 0x0D, CHR 0x0A] @ ''Ly9h'' @
        [CHR 0x0D, CHR 0x0A])
     = ''vless://a''"
proof
  fix table
  let ?a = "''Y'' @ [CHR 0x0D, CHR 0x0A] @ ''Q''"
  let ?b = "''dmxl'' @ [CHR 0x0D, CHR 0x0A] @ ''c3M6'' @ [CHR 0x0D, CHR 0x0A] @ ''Ly9h'' @
      [CHR 0x0D, CHR 0x0A]"
  have t: "TrimSpace ?a = [CHR ''Y'', CHR 0x0D, CHR 0x0A, CHR ''Q'']"
    by code_simp
  have l: "stripLF [CHR ''Y'', CHR 0x0D, CHR 0x0A, CHR ''Q''] = [CHR ''Y'', CHR 0x0D, CHR ''Q'']"
    by (simp add: stripLF_def)
  have "rePossibleB64 [CHR ''Y'', CHR 0x0D, CHR 0x0A, CHR ''Q'']"
    by code_simp
  moreover have "DecodeString [CHR ''Y'', CHR 0x0D, CHR 0x0A, CHR ''Q''] = None"
    by (simp add: DecodeString_def decodeMap_def encodeStd_def isNewline_def)
  ultimately have fails: "rePossibleB64 (TrimSpace ?a) \<and> DecodeString (TrimSpace ?a) = None"
    unfolding t by simp
  have enc: "EncodeToString ''vless://a'' = ''dmxlc3M6Ly9h''"
    by (simp add: enc6_def encodeStd_def Let_def)
  have "stripNewlines (TrimSpace ?b) = ''dmxlc3M6Ly9h''" by code_simp
  then have "stripNewlines (TrimSpace ?b) = EncodeToString ''vless://a''"
    by (simp only: enc)
  moreover have "hasScheme table ''vless://a''" by code_simp
  ultimately have wrapped: "hasScheme table ''vless://a'' \<and>
      stripNewlines (TrimSpace ?b) = EncodeToString ''vless://a''"
    by simp
  from retry_strips_line_feeds_only [of ?a table "''vless://a''"] fails
  have "decodeAttempts (TrimSpace ?a) = ([TrimSpace ?a, stripLF (TrimSpace ?a)], None)"
    and ra: "tryDecodeIfBase64 table ?a = ?a"
    by blast+
  then have "fst (decodeAttempts (TrimSpace ?a)) =
      [[CHR ''Y'', CHR 0x0D, CHR 0x0A, CHR ''Q''], [CHR ''Y'', CHR 0x0D, CHR ''Q'']]"
    unfolding t l by simp
  moreover from retry_strips_line_feeds_only [of ?b table "''vless://a''"] wrapped
  have "tryDecodeIfBase64 table ?b = ''vless://a''" by blast
  ultimately show "fst (decodeAttempts (TrimSpace ?a)) =
       [[CHR ''Y'', CHR 0x0D, CHR 0x0A, CHR ''Q''], [CHR ''Y'', CHR 0x0D, CHR ''Q'']] \<and>
     tryDecodeIfBase64 table ?a = ?a \<and> tryDecodeIfBase64 table ?b = ''vless://a''"
    using ra by simp
qed

text \<open>
  C4. The claim: for every list \<open>normal\<close> of strings without a line feed, also the empty
  list, decoding the \<open>normal\<close> output and splitting it at the line feeds gives back the
  sorted list. It fails for the empty list: the payload is then the empty text, and
  splitting the empty text gives one empty string, not no string.
\<close>

theorem empty_list_round_trip_counterexample:
  "map_option (\<lambda>payload. Split payload (CHR 0x0A)) (DecodeString (encodePayload (sort [])))
   \<noteq> Some (sort [])"
  by (simp add: encodePayload_def DecodeString_def)

text \<open>
  C4, as amended: for every list \<open>normal\<close> of strings without a line feed that is not
  empty, decoding the \<open>normal\<close> output and splitting it at the line feeds gives back the
  sorted list, which is a permutation of \<open>normal\<close> in non-decreasing lexicographic byte
  order. The \<open>normal\<close> output is what \<open>writeBase64Sorted\<close> leaves at the path when it
  returns no error.
\<close>

theorem normal_output_round_trip:
  assumes "normal \<noteq> []" and "\<forall>s \<in> set normal. CHR 0x0A \<notin> set s"
  shows "map_option (\<lambda>payload. Split payload (CHR 0x0A)) (DecodeString (encodePayload (sort normal)))
           = Some (sort normal) \<and>
         mset (sort normal) = mset normal \<and> sorted (sort normal) \<and>
         (tempName os \<noteq> Some path \<and> writeBase64Sorted os st0 path normal = (tr, None) \<longrightarrow>
            last tr path = Some (encodePayload (sort normal)))"
proof -
  have "length (sort normal) = length normal" by simp
  with assms(1) have "sort normal \<noteq> []" by (cases "sort normal") auto
  moreover from assms(2) have "\<forall>s \<in> set (sort normal). CHR 0x0A \<notin> set s" by simp
  ultimately have split: "Split (Join (sort normal) [CHR 0x0A]) (CHR 0x0A) = sort normal"
    by (rule Split_Join)
  have "DecodeString (encodePayload (sort normal)) = Some (Join (sort normal) [CHR 0x0A])"
    unfolding encodePayload_def by (rule Decode_Encode)
  then have "map_option (\<lambda>payload. Split payload (CHR 0x0A))
      (DecodeString (encodePayload (sort normal))) = Some (sort normal)"
    by (simp only: option.map split)
  moreover have "mset (sort normal) = mset normal"
    by (rule mset_sort)
  moreover have "sorted (sort normal)"
    by (rule sorted_sort)
  moreover have "tempName os \<noteq> Some path \<and> writeBase64Sorted os st0 path normal = (tr, None) \<longrightarrow>
      last tr path = Some (encodePayload (sort normal))"
    unfolding writeBase64Sorted_def using writeBase64Atomic_success by blast
  ultimately show ?thesis by blast
qed

theorem normal_output_round_trip_witness:
  "map_option (\<lambda>payload. Split payload (CHR 0x0A))
     (DecodeString (encodePayload (sort [''vmess://xyz'', ''ss://abc''])))
   = Some [''ss://abc'', ''vmess://xyz'']"
proof -
  have ne: "[''vmess://xyz'', ''ss://abc''] \<noteq> []" by simp
  have nl: "\<forall>s \<in> set [''vmess://xyz'', ''ss://abc'']. CHR 0x0A \<notin> set s" by simp
  from normal_output_round_trip [OF ne nl]
  have "map_option (\<lambda>payload. Split payload (CHR 0x0A))
     (DecodeString (encodePayload (sort [''vmess://xyz'', ''ss://abc''])))
     = Some (sort [''vmess://xyz'', ''ss://abc''])"
    by (rule conjunct1)
  then show ?thesis
    by (simp only: sort_two)
qed

text \<open>
  C5. The specification says that a write is atomic: whoever looks at the final path sees
  the previous complete content or the new complete content, at every moment, also while
  the rename is tried again. The code does not keep that. Each turn of the retry loop
  first calls \<open>os.Remove(path)\<close> and only then \<open>os.Rename(tmpPath, path)\<close>. When every
  call succeeds, the path that held \<open>b2xk\<close> holds nothing between the two calls. When
  the six renames all find the file busy, the function returns an error after it has
  removed the previous file, and the path is left with no file at all. The list below is
  what an observer of the path sees after each operation.
\<close>

theorem writeBase64Atomic_removes_before_rename:
  "map (\<lambda>st. st ''export/k/normal'')
     (fst (writeBase64Atomic
        \<lparr>tempName = Some ''export/k/normal.1.tmp'', writeOk = True, held = 8, flushOk = True,
          closeOk = True, removeOk = (\<lambda>i. True), renameResult = (\<lambda>i. RenameOk)\<rparr>
        [''export/k/normal'' \<mapsto> ''b2xk''] ''export/k/normal'' [''ss://a'']))
   = [Some ''b2xk'', Some ''b2xk'', Some ''b2xk'', Some ''b2xk'', None, Some ''c3M6Ly9h''] \<and>
   map (\<lambda>st. st ''export/k/normal'')
     (fst (writeBase64Atomic
        \<lparr>tempName = Some ''export/k/normal.1.tmp'', writeOk = True, held = 8, flushOk = True,
          closeOk = True, removeOk = (\<lambda>i. True), renameResult = (\<lambda>i. RenameBusy)\<rparr>
        [''export/k/normal'' \<mapsto> ''b2xk''] ''export/k/normal'' [''ss://a'']))
   = [Some ''b2xk'', Some ''b2xk'', Some ''b2xk'', Some ''b2xk'',
      None, None, None, None, None, None, None] \<and>
   snd (writeBase64Atomic
        \<lparr>tempName = Some ''export/k/normal.1.tmp'', writeOk = True, held = 8, flushOk = True,
          closeOk = True, removeOk = (\<lambda>i. True), renameResult = (\<lambda>i. RenameBusy)\<rparr>
        [''export/k/normal'' \<mapsto> ''b2xk''] ''export/k/normal'' [''ss://a''])
   = Some (RenameFailed 6)"
  unfolding writeBase64Atomic_def payload_one
  by (simp add: Let_def renameLoop.simps maxRetries_def)

text \<open>
  C6. When the decoding of the payload succeeds (the code decodes the trimmed payload, when
  that is not empty), the decoder returns the decoded bytes if and only if their lower-case
  form holds \<open>vless://\<close>, \<open>vmess://\<close> or \<open>ss://\<close>, and the original bytes otherwise.
\<close>

theorem decoded_only_with_scheme:
  assumes "TrimSpace b \<noteq> []" and "DecodeString (TrimSpace b) = Some dec"
  shows "tryDecodeIfBase64 table b = (if hasScheme table dec then dec else b) \<and>
         (tryDecodeIfBase64 table b = dec \<longleftrightarrow> hasScheme table dec)"
proof -
  have res: "tryDecodeIfBase64 table b = (if hasScheme table dec then dec else b)"
    using assms by (rule tryDecode_success)
  have "length dec < length (TrimSpace b)"
    using assms(2,1) by (rule Decode_shorter)
  with length_TrimSpace [of b] have "dec \<noteq> b" by auto
  with res show ?thesis by auto
qed

text \<open>The payload \<open>aGVsbG8gd29ybGQ=\<close> decodes to \<open>hello world\<close> and is passed through.\<close>

theorem decoded_only_with_scheme_witness:
  "\<forall>table.
     DecodeString (TrimSpace ''aGVsbG8gd29ybGQ='') = Some ''hello world'' \<and>
     \<not> hasScheme table ''hello world'' \<and>
     tryDecodeIfBase64 table ''aGVsbG8gd29ybGQ='' = ''aGVsbG8gd29ybGQ=''"
proof
  fix table
  have t: "TrimSpace ''aGVsbG8gd29ybGQ='' \<noteq> []" by code_simp
  have "EncodeToString ''hello world'' = ''aGVsbG8gd29ybGQ=''"
    by (simp add: enc6_def encodeStd_def Let_def)
  moreover have "TrimSpace ''aGVsbG8gd29ybGQ='' = ''aGVsbG8gd29ybGQ=''" by code_simp
  ultimately have "TrimSpace ''aGVsbG8gd29ybGQ='' = EncodeToString ''hello world''"
    by (simp only:)
  then have d: "DecodeString (TrimSpace ''aGVsbG8gd29ybGQ='') = Some ''hello world''"
    by (simp only: Decode_Encode)
  have h: "\<not> hasScheme table ''hello world''" by code_simp
  from decoded_only_with_scheme [OF t d, of table] h d
  show "DecodeString (TrimSpace ''aGVsbG8gd29ybGQ='') = Some ''hello world'' \<and>
     \<not> hasScheme table ''hello world'' \<and>
     tryDecodeIfBase64 table ''aGVsbG8gd29ybGQ='' = ''aGVsbG8gd29ybGQ=''"
    by simp
qed

text \<open>
  C7. The output of \<open>dedupe\<close> has no two strings that are equal after trimming, and it is
  the trimmed input without its empty entries, each distinct string kept once at the place
  of its first occurrence.
\<close>

theorem dedupe_first_occurrences:
  "distinct (map TrimSpace (dedupe inp)) \<and>
   dedupe inp = firstOccurrences (filter (\<lambda>k. k \<noteq> []) (map TrimSpace inp))"
proof -
  have "map TrimSpace (dedupe inp) = dedupe inp"
    by (rule map_idI) (rule dedupe_trimmed)
  moreover have eq: "dedupe inp = firstOccurrences (filter (\<lambda>k. k \<noteq> []) (map TrimSpace inp))"
    unfolding dedupe_def dedupeLoop_firstOccurrences by simp
  moreover have "distinct (dedupe inp)"
    unfolding eq by (rule distinct_firstOccurrences)
  ultimately show ?thesis by simp
qed

text \<open>
  C8. For every list and every tail size \<open>n\<close>, with \<open>n \<le> 0\<close> read as 100, the tail has
  \<open>min n (length normal)\<close> entries and is the list without its first
  \<open>length normal - min n (length normal)\<close> entries: the last ones, in their order.
\<close>

theorem buildLiteTail_last_n:
  "length (buildLiteTail normal n) = min (nat (if n \<le> 0 then 100 else n)) (length normal) \<and>
   buildLiteTail normal n =
     drop (length normal - min (nat (if n \<le> 0 then 100 else n)) (length normal)) normal"
  by (simp add: buildLiteTail_drop)

text \<open>
  C9. The items of a line that the filter keeps are emitted as \<open>normalizeScheme\<close> of the
  trimmed item. An item is kept when its lower-case form starts with an allowed scheme and
  \<open>://\<close>: the decision depends on the lower-case form only, so the comparison with the
  allowed schemes does not see the case of the item. \<open>strings.ToLower\<close> works on runes, and
  the lower-case form of a text can be shorter or longer than the text, so the \<open>://\<close> of
  the lower-case form need not be where the \<open>://\<close> of the item is. No rune above \<open>0x7F\<close>
  has \<open>:\<close> or \<open>/\<close> as its lower case (\<open>unicode.ToLower\<close> maps a letter to a letter); under
  this condition on the table a kept item holds \<open>://\<close>, the emitted entry is the lower-case
  form of the bytes before the first \<open>://\<close> of the item followed by every byte of the item
  from there on, the first \<open>://\<close> of the emitted entry is right after that lower-case form,
  and the emitted entry from its first \<open>://\<close> on is the item from its first \<open>://\<close> on.
\<close>

theorem kept_entry_lowercases_scheme_only:
  assumes "\<forall>r. 0x7F < r \<longrightarrow> table r \<noteq> 0x3A \<and> table r \<noteq> 0x2F"
  shows "filterItems table allowed out items =
     out @ map (normalizeScheme table)
       (filter (\<lambda>it. it \<noteq> [] \<and> \<not> reCommentLine it \<and> schemeAllowed table allowed it)
          (map TrimSpace items)) \<and>
   schemeAllowed table allowed it =
     (\<exists>sch \<in> allowed. \<exists>rest. ToLower table it = sch @ ''://'' @ rest) \<and>
   (schemeAllowed table allowed it \<longrightarrow>
      (\<forall>it'. ToLower table it' = ToLower table it \<longrightarrow> schemeAllowed table allowed it') \<and>
      (\<exists>i j. Index it ''://'' = Some i \<and>
           normalizeScheme table it = ToLower table (take i it) @ drop i it \<and>
           j = length (ToLower table (take i it)) \<and>
           Index (normalizeScheme table it) ''://'' = Some j \<and>
           take j (normalizeScheme table it) = ToLower table (take i it) \<and>
           drop j (normalizeScheme table it) = drop i it))"
proof (intro conjI impI)
  show "filterItems table allowed out items =
     out @ map (normalizeScheme table)
       (filter (\<lambda>it. it \<noteq> [] \<and> \<not> reCommentLine it \<and> schemeAllowed table allowed it)
          (map TrimSpace items))"
    by (rule filterItems_map)
next
  show "schemeAllowed table allowed it =
     (\<exists>sch \<in> allowed. \<exists>rest. ToLower table it = sch @ ''://'' @ rest)"
    by (rule schemeAllowed_split)
next
  assume ok: "schemeAllowed table allowed it"
  then show "\<forall>it'. ToLower table it' = ToLower table it \<longrightarrow> schemeAllowed table allowed it'"
    by (simp add: schemeAllowed_def)
  from schemeAllowed_Index [OF assms ok] obtain i where i: "Index it ''://'' = Some i" ..
  then have n: "normalizeScheme table it = ToLower table (take i it) @ drop i it"
    by (simp add: normalizeScheme_def)
  have p: "Index (normalizeScheme table it) ''://'' = Some (length (ToLower table (take i it)))"
    using assms i by (rule normalizeScheme_position)
  have "take (length (ToLower table (take i it))) (normalizeScheme table it) = ToLower table (take i it)"
    unfolding n by simp
  moreover have "drop (length (ToLower table (take i it))) (normalizeScheme table it) = drop i it"
    unfolding n by simp
  ultimately show "\<exists>i j. Index it ''://'' = Some i \<and>
           normalizeScheme table it = ToLower table (take i it) @ drop i it \<and>
           j = length (ToLower table (take i it)) \<and>
           Index (normalizeScheme table it) ''://'' = Some j \<and>
           take j (normalizeScheme table it) = ToLower table (take i it) \<and>
           drop j (normalizeScheme table it) = drop i it"
    using i n p by blast
qed

text \<open>
  With \<open>socks\<close> allowed and a table that has the lower case \<open>k\<close> of U+212A KELVIN SIGN
  (the bytes \<open>E2 84 AA\<close>), the item \<open>soc\<close>, KELVIN SIGN, \<open>S://x\<close> is kept and emitted
  as \<open>socks://x\<close>: its first \<open>://\<close> is at offset 7, that of the emitted entry at offset 5.
\<close>

theorem kept_entry_lowercases_scheme_only_witness:
  "schemeAllowed (\<lambda>r. if r = 0x212A then 0x6B else r) {''socks''}
     [CHR ''s'', CHR ''o'', CHR ''c'', CHR 0xE2, CHR 0x84, CHR 0xAA, CHR ''S'',
      CHR '':'', CHR ''/'', CHR ''/'', CHR ''x''] \<and>
   schemeAllowed (\<lambda>r. if r = 0x212A then 0x6B else r) {''socks''} ''SOCKS://x'' \<and>
   Index [CHR ''s'', CHR ''o'', CHR ''c'', CHR 0xE2, CHR 0x84, CHR 0xAA, CHR ''S'',
      CHR '':'', CHR ''/'', CHR ''/'', CHR ''x''] ''://'' = Some 7 \<and>
   normalizeScheme (\<lambda>r. if r = 0x212A then 0x6B else r)
     [CHR ''s'', CHR ''o'', CHR ''c'', CHR 0xE2, CHR 0x84, CHR 0xAA, CHR ''S'',
      CHR '':'', CHR ''/'', CHR ''/'', CHR ''x''] = ''socks://x'' \<and>
   Index (normalizeScheme (\<lambda>r. if r = 0x212A then 0x6B else r)
     [CHR ''s'', CHR ''o'', CHR ''c'', CHR 0xE2, CHR 0x84, CHR 0xAA, CHR ''S'',
      CHR '':'', CHR ''/'', CHR ''/'', CHR ''x'']) ''://'' = Some 5"
proof -
  let ?T = "\<lambda>r::nat. if r = 0x212A then 0x6B else r"
  let ?it = "[CHR ''s'', CHR ''o'', CHR ''c'', CHR 0xE2, CHR 0x84, CHR 0xAA, CHR ''S'',
      CHR '':'', CHR ''/'', CHR ''/'', CHR ''x'']"
  have tab: "\<forall>r. 0x7F < r \<longrightarrow> ?T r \<noteq> 0x3A \<and> ?T r \<noteq> 0x2F"
    by simp
  have low: "ToLower ?T ?it = ''socks://x''"
    by (simp add: utf8_eval)
  have low': "ToLower ?T ''SOCKS://x'' = ''socks://x''"
    by code_simp
  have pre: "ToLower ?T [CHR ''s'', CHR ''o'', CHR ''c'', CHR 0xE2, CHR 0x84, CHR 0xAA, CHR ''S'']
      = ''socks''"
    by (simp add: utf8_eval)
  have idx: "Index ?it ''://'' = Some 7"
    by code_simp
  have ok: "schemeAllowed ?T {''socks''} ?it"
    unfolding schemeAllowed_def low by code_simp
  from kept_entry_lowercases_scheme_only [OF tab, of "{''socks''}" "[]" "[]" ?it] ok
  have all: "\<forall>it'. ToLower ?T it' = ToLower ?T ?it \<longrightarrow> schemeAllowed ?T {''socks''} it'"
    and ex: "\<exists>i j. Index ?it ''://'' = Some i \<and>
           normalizeScheme ?T ?it = ToLower ?T (take i ?it) @ drop i ?it \<and>
           j = length (ToLower ?T (take i ?it)) \<and>
           Index (normalizeScheme ?T ?it) ''://'' = Some j \<and>
           take j (normalizeScheme ?T ?it) = ToLower ?T (take i ?it) \<and>
           drop j (normalizeScheme ?T ?it) = drop i ?it"
    by blast+
  from all low low' have ok': "schemeAllowed ?T {''socks''} ''SOCKS://x''"
    by simp
  from ex idx have n: "normalizeScheme ?T ?it = ToLower ?T (take 7 ?it) @ drop 7 ?it"
    and p: "Index (normalizeScheme ?T ?it) ''://'' = Some (length (ToLower ?T (take 7 ?it)))"
    by auto
  have t7: "take 7 ?it = [CHR ''s'', CHR ''o'', CHR ''c'', CHR 0xE2, CHR 0x84, CHR 0xAA, CHR ''S'']"
    by simp
  have d7: "drop 7 ?it = ''://x''"
    by simp
  from n have n': "normalizeScheme ?T ?it = ''socks://x''"
    unfolding t7 d7 pre by simp
  from p have p': "Index (normalizeScheme ?T ?it) ''://'' = Some 5"
    unfolding t7 pre by simp
  from ok ok' idx n' p' show ?thesis
    by (intro conjI)
qed

text \<open>
  C10. When a line of the payload has \<open>maxTokenSize\<close> (10 MB) bytes or more, the scanner
  stops there: the result is the result for the lines before it, so that line and every
  line after it are dropped. The result is a plain list; no error is part of it.
\<close>

theorem too_long_line_ends_extraction:
  assumes "pre = [] \<or> last pre = CHR 0x0A"
    and "CHR 0x0A \<notin> set long" and "maxTokenSize \<le> length long"
  shows "scanLines (pre @ long @ rest) = scanLines pre \<and>
         parseAndFilterLines table (pre @ long @ rest) allowed = parseAndFilterLines table pre allowed"
  unfolding parseAndFilterLines_def
  using scanLines_stops [OF assms(2) assms(3) assms(1)] by simp

theorem too_long_line_ends_extraction_witness:
  "\<forall>table. parseAndFilterLines table
     (''ss://a\<newline>'' @ replicate (10 * 1024 * 1024) (CHR ''x'') @ ''\<newline>ss://b'') {''ss''} =
   [''ss://a'']"
proof
  fix table
  have "parseAndFilterLines table ''ss://a\<newline>'' {''ss''} = [''ss://a'']"
    unfolding parseAndFilterLines_def scan_first_line by code_simp
  moreover have "parseAndFilterLines table
     (''ss://a\<newline>'' @ replicate (10 * 1024 * 1024) (CHR ''x'') @ ''\<newline>ss://b'') {''ss''} =
     parseAndFilterLines table ''ss://a\<newline>'' {''ss''}"
    using too_long_line_ends_extraction
      [of "''ss://a\<newline>''" "replicate (10 * 1024 * 1024) (CHR ''x'')" "''\<newline>ss://b''" table "{''ss''}"]
    by (simp add: maxTokenSize_def)
  ultimately show "parseAndFilterLines table
     (''ss://a\<newline>'' @ replicate (10 * 1024 * 1024) (CHR ''x'') @ ''\<newline>ss://b'') {''ss''} =
   [''ss://a'']"
    by simp
qed

end
